theory Spec2Isabelle
  imports Main "HOL-Library.Sublist"
begin

section \<open>Shallow embedding of \<open>scripts/checks/run-clang-tidy.py\<close>\<close>

text \<open>
  Python text (\<open>str\<close>) is modelled as \<^typ>\<open>string\<close>, a list of 8-bit characters: every
  character is a code point in the range 0..255.  The two external helpers of module
  \<open>util\<close> (\<open>util.run\<close>, \<open>util.input_files\<close>) are not part of the script; what they return
  (the diff text, the tool's standard output, the candidate file list) is a parameter of
  the model.
\<close>

subsection \<open>Character classes of the Python runtime\<close>

definition NL :: char where
  "NL = CHR 0x0A"

text \<open>\<open>str.isspace\<close> on code points below 256 (used by \<open>str.split()\<close>, by \<open>int()\<close> and by
  the regular-expression class \<open>\s\<close>).\<close>

definition is_space :: "char \<Rightarrow> bool" where
  "is_space c \<longleftrightarrow> c \<in> set [CHR 0x09, CHR 0x0A, CHR 0x0B, CHR 0x0C, CHR 0x0D,
       CHR 0x1C, CHR 0x1D, CHR 0x1E, CHR 0x1F, CHR 0x20, CHR 0x85, CHR 0xA0]"

text \<open>The line boundaries of \<open>str.splitlines\<close> on code points below 256.\<close>

definition is_linebreak :: "char \<Rightarrow> bool" where
  "is_linebreak c \<longleftrightarrow> c \<in> set [CHR 0x0A, CHR 0x0B, CHR 0x0C, CHR 0x0D,
       CHR 0x1C, CHR 0x1D, CHR 0x1E, CHR 0x85]"

text \<open>The decimal digits (\<open>\d\<close>, and the digits \<open>int()\<close> accepts) below 256.\<close>

definition is_digit :: "char \<Rightarrow> bool" where
  "is_digit c \<longleftrightarrow> c \<in> set ''0123456789''"

definition digit_val :: "char \<Rightarrow> nat" where
  "digit_val c = of_char c - 48"

subsection \<open>Errors\<close>

text \<open>The two exceptions the script can raise by itself; nothing in the script catches
  them, so raising one ends the run.\<close>

datatype error = IndexError | ValueError

text \<open>\<open>xs[i]\<close> for a non-negative \<open>i\<close>: \<open>IndexError\<close> out of range.\<close>

definition item :: "'a list \<Rightarrow> nat \<Rightarrow> error + 'a" where
  "item xs i = (if i < length xs then Inr (xs ! i) else Inl IndexError)"

subsection \<open>String methods\<close>

text \<open>\<open>str.split(sep)\<close> for a one-character separator: the pieces between separators;
  never empty.\<close>

fun split_on :: "char \<Rightarrow> string \<Rightarrow> string list" where
  "split_on sep [] = [[]]"
| "split_on sep (c # cs) =
     (if c = sep then [] # split_on sep cs
      else (case split_on sep cs of l # ls \<Rightarrow> (c # l) # ls | [] \<Rightarrow> [[c]]))"

text \<open>\<open>str.split()\<close>: the maximal runs of non-whitespace characters.\<close>

function split_ws :: "string \<Rightarrow> string list" where
  "split_ws s =
     (case dropWhile is_space s of
        [] \<Rightarrow> []
      | c # cs \<Rightarrow> (c # takeWhile (\<lambda>x. \<not> is_space x) cs)
                  # split_ws (dropWhile (\<lambda>x. \<not> is_space x) cs))"
  by pat_completeness auto
termination
proof (relation "measure length", goal_cases)
  case 1
  show ?case by simp
next
  case (2 s c cs)
  have "length (dropWhile (\<lambda>x. \<not> is_space x) cs) \<le> length cs"
    by (rule length_dropWhile_le)
  moreover have "length (dropWhile is_space s) \<le> length s"
    by (rule length_dropWhile_le)
  ultimately show ?case using 2 by simp
qed

declare split_ws.simps [simp del]

text \<open>\<open>str.splitlines()\<close>: the text between line boundaries; \<open>\r\n\<close> is one boundary, and a
  boundary at the very end opens no further line.\<close>

definition after_break :: "string \<Rightarrow> string" where
  "after_break r =
     (case r of
        [] \<Rightarrow> []
      | c # r' \<Rightarrow> (if c = CHR 0x0D \<and> prefix [NL] r' then tl r' else r'))"

function splitlines :: "string \<Rightarrow> string list" where
  "splitlines s =
     (if s = [] then []
      else takeWhile (\<lambda>c. \<not> is_linebreak c) s
           # splitlines (after_break (dropWhile (\<lambda>c. \<not> is_linebreak c) s)))"
  by pat_completeness auto
termination
proof (relation "measure length", goal_cases)
  case 1
  show ?case by simp
next
  case (2 s)
  let ?r = "dropWhile (\<lambda>c. \<not> is_linebreak c) s"
  have le: "length ?r \<le> length s" by (rule length_dropWhile_le)
  show ?case
  proof (cases ?r)
    case Nil
    show ?thesis unfolding Nil using 2 by (simp add: after_break_def)
  next
    case (Cons c r')
    then have "length (after_break ?r) < length ?r"
      by (cases r') (simp_all add: after_break_def)
    with le show ?thesis by simp
  qed
qed

declare splitlines.simps [simp del]

text \<open>\<open>str.rstrip("\n")\<close>.\<close>

definition rstrip_nl :: "string \<Rightarrow> string" where
  "rstrip_nl s = rev (dropWhile (\<lambda>c. c = NL) (rev s))"

text \<open>\<open>str.removeprefix\<close>.\<close>

definition removeprefix :: "string \<Rightarrow> string \<Rightarrow> string" where
  "removeprefix p s = (if prefix p s then drop (length p) s else s)"

subsection \<open>Integers from and to text\<close>

text \<open>\<open>int(s)\<close> for a string: surrounding whitespace is dropped, then an optional sign and
  decimal digits, where single underscores may stand between digits.  Anything else
  raises \<open>ValueError\<close>.  Integers are unbounded; the interpreter's configurable limit on
  the number of digits of a conversion is left out.\<close>

fun int_digits :: "nat \<Rightarrow> string \<Rightarrow> nat option" where
  "int_digits acc [] = Some acc"
| "int_digits acc [c] = (if is_digit c then Some (10 * acc + digit_val c) else None)"
| "int_digits acc (c # d # ds) =
     (if is_digit c then int_digits (10 * acc + digit_val c) (d # ds)
      else if c = CHR ''_'' \<and> is_digit d then int_digits (10 * acc + digit_val d) ds
      else None)"

definition int_unsigned :: "string \<Rightarrow> nat option" where
  "int_unsigned s =
     (case s of [] \<Rightarrow> None
      | c # cs \<Rightarrow> if is_digit c then int_digits (digit_val c) cs else None)"

definition strip_ws :: "string \<Rightarrow> string" where
  "strip_ws s = rev (dropWhile is_space (rev (dropWhile is_space s)))"

definition int_of_str :: "string \<Rightarrow> error + int" where
  "int_of_str s =
     (let t = strip_ws s;
          r = (case t of
                 [] \<Rightarrow> None
               | c # cs \<Rightarrow>
                   if c = CHR ''+'' then map_option int (int_unsigned cs)
                   else if c = CHR ''-'' then map_option (\<lambda>n. - int n) (int_unsigned cs)
                   else map_option int (int_unsigned t))
      in case r of None \<Rightarrow> Inl ValueError | Some n \<Rightarrow> Inr n)"

text \<open>The elements of \<open>lspan\<close>: the pieces of a split are strings, the appended default
  count is the integer \<open>0\<close>.  \<open>int(x)\<close> accepts both.\<close>

datatype pyval = PStr string | PInt int

fun py_int :: "pyval \<Rightarrow> error + int" where
  "py_int (PStr s) = int_of_str s"
| "py_int (PInt n) = Inr n"

text \<open>Decimal text of an integer, as \<open>json.dumps\<close> writes it.\<close>

definition digit_char :: "nat \<Rightarrow> char" where
  "digit_char d = ''0123456789abcdef'' ! d"

function dec :: "nat \<Rightarrow> string" where
  "dec n = (if n < 10 then [digit_char n] else dec (n div 10) @ [digit_char (n mod 10)])"
  by pat_completeness auto
termination
  by (relation "measure id") auto

declare dec.simps [simp del]

definition int_repr :: "int \<Rightarrow> string" where
  "int_repr i = (if i < 0 then CHR ''-'' # dec (nat (- i)) else dec (nat i))"

subsection \<open>Regular-expression building blocks\<close>

text \<open>Each building block lists the ways it can match at the beginning of the subject, in
  the order in which the backtracking matcher tries them: a pair of the text consumed
  and the text left for the rest of the pattern.  A pattern is the list comprehension
  over its parts, and \<open>re.match\<close> returns the first entry of that list.\<close>

text \<open>A literal.\<close>

definition lit :: "string \<Rightarrow> string \<Rightarrow> string list" where
  "lit w s = (if prefix w s then [drop (length w) s] else [])"

text \<open>An alternation of literals, \<open>(w1|w2|...)\<close>.\<close>

definition alt :: "string list \<Rightarrow> string \<Rightarrow> (string \<times> string) list" where
  "alt ws s = [(w, r). w \<leftarrow> ws, r \<leftarrow> lit w s]"

text \<open>A greedy \<open>[class]*\<close>, longest first, and \<open>[class]+\<close>.\<close>

fun star :: "(char \<Rightarrow> bool) \<Rightarrow> string \<Rightarrow> (string \<times> string) list" where
  "star p [] = [([], [])]"
| "star p (c # cs) =
     (if p c then map (\<lambda>(a, r). (c # a, r)) (star p cs) @ [([], c # cs)]
      else [([], c # cs)])"

definition plus :: "(char \<Rightarrow> bool) \<Rightarrow> string \<Rightarrow> (string \<times> string) list" where
  "plus p s = [(a, r). (a, r) \<leftarrow> star p s, a \<noteq> []]"

text \<open>\<open>.\<close> matches every character except the newline.\<close>

definition dot :: "char \<Rightarrow> bool" where
  "dot c \<longleftrightarrow> c \<noteq> NL"

text \<open>\<open>$\<close> without the MULTILINE flag: at the end of the subject, or just before a
  newline that is the last character of the subject.\<close>

definition at_end :: "string \<Rightarrow> bool" where
  "at_end s \<longleftrightarrow> s = [] \<or> s = [NL]"

subsection \<open>\<open>Multimap\<close>\<close>

text \<open>A \<open>dict\<close> keeps its keys in insertion order, and the order is visible in the output,
  so the dictionary is an association list.  \<open>Multimap.__setitem__\<close> (lines 25--30): a new
  key is entered at the end with a one-element list; for a key already there the value
  is appended to the key's list.\<close>

type_synonym 'v multimap = "(string \<times> 'v list) list"

fun multimap_set :: "'v multimap \<Rightarrow> string \<Rightarrow> 'v \<Rightarrow> 'v multimap" where
  "multimap_set [] key v = [(key, [v])]"
| "multimap_set ((k, vs) # m) key v =
     (if k = key then (k, vs @ [v]) # m else (k, vs) # multimap_set m key v)"

subsection \<open>\<open>git_changed_lines\<close>\<close>

text \<open>Line 41, \<open>re.match(r"^\+\+\+ b/.*", line)\<close>, used for its truth value.\<close>

definition new_file_marker :: "string \<Rightarrow> bool" where
  "new_file_marker line \<longleftrightarrow> [r2. r1 \<leftarrow> lit ''+++ b/'' line, (a, r2) \<leftarrow> star dot r1] \<noteq> []"

text \<open>Line 45, \<open>re.match(r"^\+\+\+ b/(.*(\.cpp|\.h|\.hpp))$", line)\<close>: the value is
  \<open>match.group(1)\<close> of the first match.\<close>

definition source_file_matches :: "string \<Rightarrow> string list" where
  "source_file_matches line =
     [a @ e. r1 \<leftarrow> lit ''+++ b/'' line, (a, r2) \<leftarrow> star dot r1,
             (e, r3) \<leftarrow> alt [''.cpp'', ''.h'', ''.hpp''] r2, at_end r3]"

definition source_file_marker :: "string \<Rightarrow> string option" where
  "source_file_marker line = (case source_file_matches line of [] \<Rightarrow> None | g # _ \<Rightarrow> Some g)"

text \<open>Line 49, \<open>re.match(r"^@@", line)\<close>.\<close>

definition hunk_header :: "string \<Rightarrow> bool" where
  "hunk_header line \<longleftrightarrow> lit ''@@'' line \<noteq> []"

text \<open>A path that ends in one of the three recognised extensions.\<close>

definition source_ext :: "string \<Rightarrow> bool" where
  "source_ext p \<longleftrightarrow> suffix ''.cpp'' p \<or> suffix ''.h'' p \<or> suffix ''.hpp'' p"

text \<open>The local state of the loop: the variable \<open>file\<close> (here \<open>cur_file\<close>) and the ranges recorded
  so far.  A
  range is the two-element list \<open>[start, end]\<close>.\<close>

record scan_state =
  cur_file :: string
  changed_lines :: "(int \<times> int) multimap"

text \<open>Lines 51--53: the new-side span, split at the comma, with the count \<open>0\<close> appended
  when the span has no comma.\<close>

definition hunk_span :: "string \<Rightarrow> pyval list" where
  "hunk_span field =
     (let lspan = map PStr (split_on (CHR '','') field)
      in if length lspan \<le> 1 then lspan @ [PInt 0] else lspan)"

text \<open>Line 55: \<open>[int(lspan[0]), int(lspan[0]) + int(lspan[1])]\<close>.\<close>

definition hunk_range :: "pyval list \<Rightarrow> error + int \<times> int" where
  "hunk_range lspan =
     (case item lspan 0 of
        Inl e \<Rightarrow> Inl e
      | Inr s0 \<Rightarrow>
          (case py_int s0 of
             Inl e \<Rightarrow> Inl e
           | Inr start \<Rightarrow>
               (case item lspan 1 of
                  Inl e \<Rightarrow> Inl e
                | Inr s1 \<Rightarrow>
                    (case py_int s1 of
                       Inl e \<Rightarrow> Inl e
                     | Inr n \<Rightarrow> Inr (start, start + n)))))"

text \<open>Lines 51--55 on the fields of a hunk header: \<open>fields[2]\<close> is the new-side span.\<close>

definition hunk_line_range :: "string list \<Rightarrow> error + int \<times> int" where
  "hunk_line_range flds =
     (case item flds 2 of
        Inl e \<Rightarrow> Inl e
      | Inr field \<Rightarrow> hunk_range (hunk_span field))"

text \<open>Lines 41--47: the value of \<open>file\<close> after the two marker tests on a line.\<close>

definition next_file :: "string \<Rightarrow> string \<Rightarrow> string" where
  "next_file f line =
     (let f1 = (if new_file_marker line then [] else f)
      in case source_file_marker line of Some g \<Rightarrow> g | None \<Rightarrow> f1)"

text \<open>The body of the loop, lines 38--55, on one line of the diff.\<close>

definition loop_body :: "scan_state \<Rightarrow> string \<Rightarrow> error + scan_state" where
  "loop_body st raw =
     (let line = rstrip_nl raw;
          flds = split_ws line;
          f = next_file (cur_file st) line
      in if hunk_header line \<and> f \<noteq> [] then
           (case hunk_line_range flds of
              Inl e \<Rightarrow> Inl e
            | Inr r \<Rightarrow> Inr \<lparr>cur_file = f, changed_lines = multimap_set (changed_lines st) f r\<rparr>)
         else Inr \<lparr>cur_file = f, changed_lines = changed_lines st\<rparr>)"

text \<open>The loop, line 37: an exception leaves it at once.\<close>

fun scan :: "scan_state \<Rightarrow> string list \<Rightarrow> error + scan_state" where
  "scan st [] = Inr st"
| "scan st (l # ls) = (case loop_body st l of Inl e \<Rightarrow> Inl e | Inr st' \<Rightarrow> scan st' ls)"

text \<open>Lines 34--35: the state the loop starts from.\<close>

definition init_state :: scan_state where
  "init_state = \<lparr>cur_file = [], changed_lines = []\<rparr>"

text \<open>The document handed to \<open>json.dumps\<close> (line 58) is the list of the dictionary's
  items; \<open>changed_ranges\<close> is that list for a diff text.\<close>

definition changed_ranges :: "string \<Rightarrow> error + (int \<times> int) multimap" where
  "changed_ranges diff =
     (case scan init_state (splitlines diff) of
        Inl e \<Rightarrow> Inl e
      | Inr st \<Rightarrow> Inr (changed_lines st))"

subsection \<open>\<open>json.dumps\<close> of the output document\<close>

text \<open>\<open>json.dumps\<close> with its defaults: \<open>", "\<close> between items, \<open>": "\<close> after a key, and
  strings escaped to ASCII.\<close>

definition hex2 :: "nat \<Rightarrow> string" where
  "hex2 n = [digit_char (n div 16), digit_char (n mod 16)]"

definition json_char :: "char \<Rightarrow> string" where
  "json_char c =
     (if c = CHR 0x22 then [CHR 0x5C, CHR 0x22]
      else if c = CHR 0x5C then [CHR 0x5C, CHR 0x5C]
      else if c = CHR 0x0A then [CHR 0x5C, CHR ''n'']
      else if c = CHR 0x0D then [CHR 0x5C, CHR ''r'']
      else if c = CHR 0x09 then [CHR 0x5C, CHR ''t'']
      else if c = CHR 0x0C then [CHR 0x5C, CHR ''f'']
      else if c = CHR 0x08 then [CHR 0x5C, CHR ''b'']
      else if 32 \<le> (of_char c :: nat) \<and> (of_char c :: nat) \<le> 126 then [c]
      else [CHR 0x5C, CHR ''u'', CHR ''0'', CHR ''0''] @ hex2 (of_char c))"

definition json_string :: "string \<Rightarrow> string" where
  "json_string s = [CHR 0x22] @ concat (map json_char s) @ [CHR 0x22]"

fun join :: "string \<Rightarrow> string list \<Rightarrow> string" where
  "join sep [] = []"
| "join sep [x] = x"
| "join sep (x # y # ys) = x @ sep @ join sep (y # ys)"

definition json_array :: "string list \<Rightarrow> string" where
  "json_array xs = ''['' @ join '', '' xs @ '']''"

definition json_range :: "int \<times> int \<Rightarrow> string" where
  "json_range r = json_array [int_repr (fst r), int_repr (snd r)]"

definition json_entry :: "string \<times> (int \<times> int) list \<Rightarrow> string" where
  \<open>json_entry kv =
     ''{"name": '' @ json_string (fst kv) @ '', "lines": '' @
     json_array (map json_range (snd kv)) @ ''}''\<close>

definition json_dumps :: "(int \<times> int) multimap \<Rightarrow> string" where
  "json_dumps doc = json_array (map json_entry doc)"

text \<open>\<open>git_changed_lines\<close> on the text that \<open>git diff --text --unified=0 <commit>\<close> printed.\<close>

definition git_changed_lines :: "string \<Rightarrow> error + string" where
  "git_changed_lines diff =
     (case changed_ranges diff of Inl e \<Rightarrow> Inl e | Inr doc \<Rightarrow> Inr (json_dumps doc))"

subsection \<open>\<open>check_output\<close>\<close>

text \<open>\<open>check_output\<close>: \<open>re.match(r"^/.* warning: ", output)\<close>.  \<open>re.match\<close> anchors at the
  beginning of the whole text; the result is used only for its truth value.\<close>

definition check_output :: "string \<Rightarrow> bool" where
  "check_output output \<longleftrightarrow>
     [r3. r1 \<leftarrow> lit ''/'' output, (a, r2) \<leftarrow> star dot r1, r3 \<leftarrow> lit '' warning: '' r2] \<noteq> []"

subsection \<open>\<open>tidy\<close>\<close>

text \<open>Line 68: the files kept, \<open>re.match(r".*(\.cpp|\.h|\.hpp)$", file)\<close>.\<close>

definition source_file :: "string \<Rightarrow> bool" where
  "source_file f \<longleftrightarrow>
     [r2. (a, r1) \<leftarrow> star dot f, (e, r2) \<leftarrow> alt [''.cpp'', ''.h'', ''.hpp''] r1, at_end r2] \<noteq> []"

text \<open>Line 72: \<open>fix = "--fix" if args.fix == "fix" else ""\<close>; \<open>args.fix\<close> is \<open>None\<close> when the
  option is absent.\<close>

definition fix_flag :: "string option \<Rightarrow> string" where
  "fix_flag a = (if a = Some ''fix'' then ''--fix'' else [])"

text \<open>Line 83: the command line handed to the shell.\<close>

definition tidy_command :: "string \<Rightarrow> string \<Rightarrow> string" where
  "tidy_command fx lines =
     ''xargs clang-tidy -p=_build/release/ --format-style=file -header-filter='' @ [CHR 0x27] @
     ''.*'' @ [CHR 0x27] @ '' --quiet '' @ fx @ '' '' @ lines"

text \<open>Lines 88--90, the pattern
  \<open>^(.*):(\d+):(\d+):\s+(error|warning):\s+(.*) \[([a-z0-9,\-]+)\]\s*$\<close>:
  all its matches on a line, as the six groups, in the matcher's order.\<close>

definition rule_char :: "char \<Rightarrow> bool" where
  "rule_char c \<longleftrightarrow> c \<in> set ''abcdefghijklmnopqrstuvwxyz0123456789,-''"

definition clang_tidy_matches ::
    "string \<Rightarrow> (string \<times> string \<times> string \<times> string \<times> string \<times> string) list" where
  "clang_tidy_matches s =
     [(path, line, col, severity, message, rule).
        (path, r1) \<leftarrow> star dot s,
        r2 \<leftarrow> lit '':'' r1,
        (line, r3) \<leftarrow> plus is_digit r2,
        r4 \<leftarrow> lit '':'' r3,
        (col, r5) \<leftarrow> plus is_digit r4,
        r6 \<leftarrow> lit '':'' r5,
        (w1, r7) \<leftarrow> plus is_space r6,
        (severity, r8) \<leftarrow> alt [''error'', ''warning''] r7,
        r9 \<leftarrow> lit '':'' r8,
        (w2, r10) \<leftarrow> plus is_space r9,
        (message, r11) \<leftarrow> star dot r10,
        r12 \<leftarrow> lit '' ['' r11,
        (rule, r13) \<leftarrow> plus rule_char r12,
        r14 \<leftarrow> lit '']'' r13,
        (w3, r15) \<leftarrow> star is_space r14,
        at_end r15]"

text \<open>Line 96: the prefix removed from the path.\<close>

definition workspace_prefix :: string where
  "workspace_prefix = ''/__w/velox/velox/''"

text \<open>Lines 95--99: the text printed for the groups of a match.\<close>

definition annotation_text ::
    "string \<times> string \<times> string \<times> string \<times> string \<times> string \<Rightarrow> string" where
  "annotation_text groups =
     (case groups of
        (path, line, col, severity, message, rule) \<Rightarrow>
          ''::'' @ severity @ '' file='' @ removeprefix workspace_prefix path @ '',line='' @ line @
          '',col='' @ col @ '',title='' @ rule @ ''::'' @ message)"

text \<open>Lines 93--99: the annotation printed for one line of the tool's output, if the
  pattern matches it; \<open>re.match\<close> gives the first match.\<close>

definition annotation :: "string \<Rightarrow> string option" where
  "annotation stdout_line =
     (case clang_tidy_matches stdout_line of
        [] \<Rightarrow> None
      | groups # _ \<Rightarrow> Some (annotation_text groups))"

text \<open>Lines 87--99: what is printed for the tool's output; nothing outside GitHub
  Actions.\<close>

definition annotations :: "bool \<Rightarrow> string \<Rightarrow> string list" where
  "annotations gha stdout =
     (if gha then List.map_filter annotation (split_on NL stdout) else [])"

text \<open>Lines 101--103: \<open>ok = check_output(stdout); return 0 if ok else 1\<close>.\<close>

definition exit_status :: "string \<Rightarrow> int" where
  "exit_status stdout = (if check_output stdout then 0 else 1)"

text \<open>\<open>tidy\<close> as a whole.  The arguments are those of \<open>parse_args\<close> (\<open>args.commit\<close>,
  \<open>args.fix\<close>, \<open>args.files\<close>); the environment
  gives what the script reads from outside: whether \<open>GITHUB_ACTIONS\<close> is set, the result
  of \<open>util.input_files\<close>, and \<open>util.run\<close>, which maps a command line and the text on its
  standard input to exit status, standard output and standard error.\<close>

record tidy_args =
  arg_commit :: "string option"
  arg_fix :: "string option"
  arg_files :: "string list"

record tidy_env =
  in_gha :: bool
  input_files :: "string list \<Rightarrow> string list"
  run :: "string \<Rightarrow> string list \<Rightarrow> int \<times> string \<times> string"

record tidy_result =
  cmdline :: string
  printed :: "string list"
  status :: int

definition line_filter :: "tidy_env \<Rightarrow> string option \<Rightarrow> error + string" where
  "line_filter env c =
     (case c of
        None \<Rightarrow> Inr []
      | Some rv \<Rightarrow>
          (case git_changed_lines (fst (snd (run env (''git diff --text --unified=0 '' @ rv) []))) of
             Inl e \<Rightarrow> Inl e
           | Inr js \<Rightarrow> Inr ([CHR 0x27] @ ''--line-filter='' @ js @ [CHR 0x27])))"

definition tidy :: "tidy_env \<Rightarrow> tidy_args \<Rightarrow> error + tidy_result" where
  "tidy env args =
     (let fs = filter source_file (input_files env (arg_files args));
          fx = fix_flag (arg_fix args)
      in case line_filter env (arg_commit args) of
           Inl e \<Rightarrow> Inl e
         | Inr lines \<Rightarrow>
             let cmd = tidy_command fx lines;
                 stdout = fst (snd (run env cmd fs))
             in Inr \<lparr>cmdline = cmd,
                     printed = lines # annotations (in_gha env) stdout,
                     status = exit_status stdout\<rparr>)"

section \<open>Reference notions for the properties\<close>

subsection \<open>The output document as the data model describes it\<close>

text \<open>The hunk headers of a diff in the order met, each with the file it stands under:
  the lines that start with \<open>@@\<close> while \<open>file\<close> is not empty.\<close>

fun hunks_under :: "string \<Rightarrow> string list \<Rightarrow> (string \<times> string) list" where
  "hunks_under f [] = []"
| "hunks_under f (raw # ls) =
     (let line = rstrip_nl raw; f' = next_file f line
      in (if hunk_header line \<and> f' \<noteq> [] then [(f', line)] else []) @ hunks_under f' ls)"

text \<open>The distinct elements of a list in the order of their first occurrence.\<close>

fun first_seen :: "'a list \<Rightarrow> 'a list" where
  "first_seen [] = []"
| "first_seen (x # xs) = x # filter (\<lambda>y. y \<noteq> x) (first_seen xs)"

text \<open>One record per distinct key, in first-seen order, holding all the values entered
  under that key, in the order entered.\<close>

definition grouped :: "(string \<times> 'v) list \<Rightarrow> 'v multimap" where
  "grouped evs =
     map (\<lambda>k. (k, map snd (filter (\<lambda>e. fst e = k) evs))) (first_seen (map fst evs))"

subsection \<open>Diagnostic lines\<close>

text \<open>The parts of a line of the form \<open><path>:<line>:<col>: <severity>: <message> [<rule>]\<close>;
  \<open>d_w1\<close> and \<open>d_w2\<close> are the blanks after the colons, \<open>d_w3\<close> the blanks at the end.\<close>

record diagnostic =
  d_path :: string
  d_line :: string
  d_col :: string
  d_w1 :: string
  d_severity :: string
  d_w2 :: string
  d_message :: string
  d_rule :: string
  d_w3 :: string

text \<open>The line built from its parts.\<close>

definition diagnostic_text :: "diagnostic \<Rightarrow> string" where
  "diagnostic_text d =
     d_path d @ '':'' @ d_line d @ '':'' @ d_col d @ '':'' @ d_w1 d @ d_severity d @ '':'' @
     d_w2 d @ d_message d @ '' ['' @ d_rule d @ '']'' @ d_w3 d"

text \<open>What the parts are made of.\<close>

definition diagnostic_parts :: "diagnostic \<Rightarrow> bool" where
  "diagnostic_parts d \<longleftrightarrow>
     list_all dot (d_path d) \<and>
     d_line d \<noteq> [] \<and> list_all is_digit (d_line d) \<and>
     d_col d \<noteq> [] \<and> list_all is_digit (d_col d) \<and>
     d_w1 d \<noteq> [] \<and> list_all is_space (d_w1 d) \<and>
     (d_severity d = ''error'' \<or> d_severity d = ''warning'') \<and>
     d_w2 d \<noteq> [] \<and> list_all is_space (d_w2 d) \<and>
     list_all dot (d_message d) \<and>
     d_rule d \<noteq> [] \<and> list_all rule_char (d_rule d) \<and>
     list_all is_space (d_w3 d)"

text \<open>The annotation format for a line with these parts; the path loses the prefix of
  line 96 when it starts with it.\<close>

definition diagnostic_annotation :: "diagnostic \<Rightarrow> string" where
  "diagnostic_annotation d =
     ''::'' @ d_severity d @ '' file='' @ removeprefix workspace_prefix (d_path d) @ '',line='' @
     d_line d @ '',col='' @ d_col d @ '',title='' @ d_rule d @ ''::'' @ d_message d"

subsection \<open>Runs of the extraction as a relation\<close>

text \<open>The loop of line 37 as a big-step relation between the state before, the lines
  still to read, and the outcome: an exception or the state at the end.\<close>

inductive run_loop :: "scan_state \<Rightarrow> string list \<Rightarrow> error + scan_state \<Rightarrow> bool" where
  loop_done: "run_loop st [] (Inr st)"
| loop_raise: "loop_body st l = Inl e \<Longrightarrow> run_loop st (l # ls) (Inl e)"
| loop_next: "loop_body st l = Inr st' \<Longrightarrow> run_loop st' ls r \<Longrightarrow> run_loop st (l # ls) r"

text \<open>A run of \<open>git_changed_lines\<close> on a diff text: the locals are set up (lines 34--35),
  the loop runs, and the dictionary's items are serialised (lines 57--59).\<close>

inductive extraction :: "string \<Rightarrow> error + string \<Rightarrow> bool" where
  extraction_raise:
    "run_loop init_state (splitlines diff) (Inl e) \<Longrightarrow> extraction diff (Inl e)"
| extraction_return:
    "run_loop init_state (splitlines diff) (Inr st) \<Longrightarrow>
       extraction diff (Inr (json_dumps (changed_lines st)))"

section \<open>Properties\<close>

subsection \<open>The regular-expression building blocks\<close>

lemma lit_iff: "r \<in> set (lit w s) \<longleftrightarrow> s = w @ r"
  by (auto simp: lit_def prefix_def)

lemma lit_nonempty: "lit w s \<noteq> [] \<longleftrightarrow> prefix w s"
  by (simp add: lit_def)

lemma lit_append: "lit w (w @ r) = [r]"
  by (simp add: lit_def)

lemma star_iff: "(a, r) \<in> set (star p s) \<longleftrightarrow> s = a @ r \<and> (\<forall>c\<in>set a. p c)"
proof (induction s arbitrary: a)
  case Nil
  show ?case by auto
next
  case (Cons c cs)
  show ?case
  proof (cases a)
    case Nil
    then show ?thesis by auto
  next
    case (Cons d ds)
    then show ?thesis using Cons.IH [of ds] by auto
  qed
qed

lemma plus_iff: "(a, r) \<in> set (plus p s) \<longleftrightarrow> s = a @ r \<and> a \<noteq> [] \<and> (\<forall>c\<in>set a. p c)"
  by (auto simp: plus_def star_iff)

lemma alt_iff: "(w, r) \<in> set (alt ws s) \<longleftrightarrow> w \<in> set ws \<and> s = w @ r"
  by (force simp: alt_def lit_iff)

subsection \<open>Exit status\<close>

lemma check_output_iff:
  "check_output s \<longleftrightarrow> (\<exists>a b. s = ''/'' @ a @ '' warning: '' @ b \<and> NL \<notin> set a)"
proof -
  have "check_output s \<longleftrightarrow>
      (\<exists>r3 r1 a r2. r1 \<in> set (lit ''/'' s) \<and> (a, r2) \<in> set (star dot r1) \<and> r3 \<in> set (lit '' warning: '' r2))"
    unfolding check_output_def by (fastforce simp: neq_Nil_conv)
  also have "\<dots> \<longleftrightarrow> (\<exists>a b. s = ''/'' @ a @ '' warning: '' @ b \<and> NL \<notin> set a)"
    unfolding lit_iff star_iff dot_def by auto
  finally show ?thesis .
qed

lemma split_on_nonempty: "split_on sep s \<noteq> []"
  by (induction s) (auto split: list.splits)

lemma hd_split_on: "hd (split_on sep s) = takeWhile (\<lambda>c. c \<noteq> sep) s"
  using split_on_nonempty by (induction s) (auto split: list.splits)

lemma check_output_first_line:
  "check_output s \<longleftrightarrow> check_output (hd (split_on NL s))"
proof
  assume "check_output s"
  then obtain a b where s: "s = ''/'' @ a @ '' warning: '' @ b" and a: "NL \<notin> set a"
    unfolding check_output_iff by blast
  have "\<forall>c\<in>set (''/'' @ a @ '' warning: ''). c \<noteq> NL"
    using a by (auto simp: NL_def)
  then have "takeWhile (\<lambda>c. c \<noteq> NL) ((''/'' @ a @ '' warning: '') @ b)
      = (''/'' @ a @ '' warning: '') @ takeWhile (\<lambda>c. c \<noteq> NL) b"
    by (intro takeWhile_append2) blast
  then have "takeWhile (\<lambda>c. c \<noteq> NL) s = ''/'' @ a @ '' warning: '' @ takeWhile (\<lambda>c. c \<noteq> NL) b"
    unfolding s by simp
  then show "check_output (hd (split_on NL s))"
    unfolding hd_split_on check_output_iff using a by blast
next
  assume "check_output (hd (split_on NL s))"
  then obtain a b where t: "takeWhile (\<lambda>c. c \<noteq> NL) s = ''/'' @ a @ '' warning: '' @ b"
    and a: "NL \<notin> set a"
    unfolding hd_split_on check_output_iff by blast
  have "s = takeWhile (\<lambda>c. c \<noteq> NL) s @ dropWhile (\<lambda>c. c \<noteq> NL) s" by simp
  then have "s = ''/'' @ a @ '' warning: '' @ (b @ dropWhile (\<lambda>c. c \<noteq> NL) s)"
    unfolding t by simp
  then show "check_output s" unfolding check_output_iff using a by blast
qed

lemmas regex_eval = check_output_def lit_def dot_def NL_def alt_def plus_def at_end_def

text \<open>
  C1 (as the code has it).  \<open>re.match\<close> is applied to the whole output without the MULTILINE
  flag, and \<open>.\<close> does not cross a newline: the status is \<open>0\<close> exactly when the first line of
  the tool's output starts with \<open>/\<close> and contains \<open> warning: \<close>, and \<open>1\<close> otherwise.  Later
  lines are never looked at.  This is the status \<open>tidy\<close> returns for the output of the
  command it ran.
\<close>

theorem exit_status_first_line:
  "exit_status stdout = (if check_output (hd (split_on NL stdout)) then 0 else 1)
   \<and> (tidy env args = Inr res \<longrightarrow>
        status res =
          (if check_output (hd (split_on NL (fst (snd (run env (cmdline res)
                (filter source_file (input_files env (arg_files args))))))))
           then 0 else 1))"
proof -
  have 1: "exit_status out = (if check_output (hd (split_on NL out)) then 0 else 1)" for out
    unfolding exit_status_def using check_output_first_line [of out] by simp
  have "status res = exit_status (fst (snd (run env (cmdline res)
                (filter source_file (input_files env (arg_files args))))))"
    if "tidy env args = Inr res"
    using that by (auto simp: tidy_def Let_def split: sum.splits)
  with 1 show ?thesis by simp
qed

theorem exit_status_first_line_witness:
  "exit_status ''/a.cpp:1:1: warning: y\<newline>x'' = 0 \<and> exit_status ''x\<newline>/a.cpp:1:1: warning: y'' = 1
   \<and> tidy \<lparr>in_gha = False, input_files = (\<lambda>fs. fs), run = (\<lambda>c i. (0, ''x\<newline>/a.cpp:1:1: warning: y'', []))\<rparr>
        \<lparr>arg_commit = None, arg_fix = None, arg_files = [''a.cpp'']\<rparr>
      = Inr \<lparr>cmdline = tidy_command [] [], printed = [[]], status = 1\<rparr>"
  using exit_status_first_line [of "''/a.cpp:1:1: warning: y\<newline>x''"]
    exit_status_first_line [of "''x\<newline>/a.cpp:1:1: warning: y''"
      "\<lparr>in_gha = False, input_files = (\<lambda>fs. fs), run = (\<lambda>c i. (0, ''x\<newline>/a.cpp:1:1: warning: y'', []))\<rparr>"
      "\<lparr>arg_commit = None, arg_fix = None, arg_files = [''a.cpp'']\<rparr>"
      "\<lparr>cmdline = tidy_command [] [], printed = [[]], status = 1\<rparr>"]
  by (simp add: regex_eval tidy_def line_filter_def Let_def fix_flag_def annotations_def exit_status_def)

text \<open>
  C1 as stated fails: the output below has a second line that matches the marker pattern,
  and the status is \<open>1\<close>.
\<close>

theorem exit_status_any_line_counterexample:
  "split_on NL ''x\<newline>/a.cpp:1:1: warning: y'' = [''x'', ''/a.cpp:1:1: warning: y'']
   \<and> check_output ''/a.cpp:1:1: warning: y''
   \<and> exit_status ''x\<newline>/a.cpp:1:1: warning: y'' = 1"
  by (simp add: exit_status_def regex_eval)

subsection \<open>The fix flag\<close>

text \<open>
  C10.  Line 72 gives the flag text \<open>--fix\<close> exactly when the \<open>--fix\<close> argument of the script
  is the string \<open>fix\<close>, and the empty text for every other value and when the argument is
  absent.  The command \<open>tidy\<close> hands to \<open>util.run\<close> is the text
  \<open>xargs clang-tidy -p=_build/release/ --format-style=file -header-filter='.*' --quiet \<close>
  followed by that flag text, one blank and the line filter, and the annotations and the
  status come from the output of this very command on the files kept.  So the tool is run
  with \<open>--fix\<close> when the argument is \<open>fix\<close>, and without it otherwise.
\<close>

theorem fix_flag_exactly_fix:
  "(fix_flag a = ''--fix'' \<longleftrightarrow> a = Some ''fix'') \<and>
   (a \<noteq> Some ''fix'' \<longrightarrow> fix_flag a = []) \<and>
   (tidy env (args\<lparr>arg_fix := a\<rparr>) = Inr res \<longrightarrow>
      (\<exists>lines. line_filter env (arg_commit args) = Inr lines \<and>
         cmdline res =
           ''xargs clang-tidy -p=_build/release/ --format-style=file -header-filter='' @ [CHR 0x27] @
           ''.*'' @ [CHR 0x27] @ '' --quiet '' @ (if a = Some ''fix'' then ''--fix'' else []) @
           '' '' @ lines \<and>
         printed res = lines # annotations (in_gha env)
           (fst (snd (run env (cmdline res) (filter source_file (input_files env (arg_files args)))))) \<and>
         status res = exit_status
           (fst (snd (run env (cmdline res) (filter source_file (input_files env (arg_files args))))))))"
proof (intro conjI impI)
  show "fix_flag a = ''--fix'' \<longleftrightarrow> a = Some ''fix''"
    by (simp add: fix_flag_def)
next
  assume "a \<noteq> Some ''fix''"
  then show "fix_flag a = []" by (simp add: fix_flag_def)
next
  let ?fs = "filter source_file (input_files env (arg_files args))"
  assume t: "tidy env (args\<lparr>arg_fix := a\<rparr>) = Inr res"
  then obtain lines where l: "line_filter env (arg_commit args) = Inr lines"
    by (cases "line_filter env (arg_commit args)") (auto simp: tidy_def Let_def)
  define cmd where "cmd = tidy_command (fix_flag a) lines"
  from t l have res: "res = \<lparr>cmdline = cmd,
      printed = lines # annotations (in_gha env) (fst (snd (run env cmd ?fs))),
      status = exit_status (fst (snd (run env cmd ?fs)))\<rparr>"
    by (simp add: tidy_def Let_def cmd_def)
  have shape: "cmd =
      ''xargs clang-tidy -p=_build/release/ --format-style=file -header-filter='' @ [CHR 0x27] @
      ''.*'' @ [CHR 0x27] @ '' --quiet '' @ (if a = Some ''fix'' then ''--fix'' else []) @
      '' '' @ lines"
    by (simp add: cmd_def tidy_command_def fix_flag_def)
  from res have "cmdline res = cmd"
    and "printed res = lines # annotations (in_gha env) (fst (snd (run env (cmdline res) ?fs)))"
    and "status res = exit_status (fst (snd (run env (cmdline res) ?fs)))"
    by simp_all
  with l shape show "\<exists>lines. line_filter env (arg_commit args) = Inr lines \<and>
         cmdline res =
           ''xargs clang-tidy -p=_build/release/ --format-style=file -header-filter='' @ [CHR 0x27] @
           ''.*'' @ [CHR 0x27] @ '' --quiet '' @ (if a = Some ''fix'' then ''--fix'' else []) @
           '' '' @ lines \<and>
         printed res = lines # annotations (in_gha env)
           (fst (snd (run env (cmdline res) (filter source_file (input_files env (arg_files args)))))) \<and>
         status res = exit_status
           (fst (snd (run env (cmdline res) (filter source_file (input_files env (arg_files args))))))"
    by (intro exI [of _ lines]) (simp only: simp_thms)
qed

theorem fix_flag_exactly_fix_witness:
  "fix_flag (Some ''fix'') = ''--fix'' \<and> fix_flag (Some ''Fix'') = [] \<and> fix_flag (Some ''true'') = []
   \<and> fix_flag None = []
   \<and> tidy \<lparr>in_gha = False, input_files = (\<lambda>fs. fs),
           run = (\<lambda>c i. (0, if c = ''xargs clang-tidy -p=_build/release/ --format-style=file -header-filter=''
                  @ [CHR 0x27] @ ''.*'' @ [CHR 0x27] @ '' --quiet --fix '' then ''/a.cpp:1:1: warning: y'' else [], []))\<rparr>
         \<lparr>arg_commit = None, arg_fix = Some ''yes'', arg_files = [''a.cpp'']\<rparr>
       = Inr \<lparr>cmdline = ''xargs clang-tidy -p=_build/release/ --format-style=file -header-filter=''
                  @ [CHR 0x27] @ ''.*'' @ [CHR 0x27] @ '' --quiet  '',
              printed = [[]], status = 1\<rparr>
   \<and> tidy \<lparr>in_gha = False, input_files = (\<lambda>fs. fs),
           run = (\<lambda>c i. (0, if c = ''xargs clang-tidy -p=_build/release/ --format-style=file -header-filter=''
                  @ [CHR 0x27] @ ''.*'' @ [CHR 0x27] @ '' --quiet --fix '' then ''/a.cpp:1:1: warning: y'' else [], []))\<rparr>
         \<lparr>arg_commit = None, arg_fix = Some ''fix'', arg_files = [''a.cpp'']\<rparr>
       = Inr \<lparr>cmdline = ''xargs clang-tidy -p=_build/release/ --format-style=file -header-filter=''
                  @ [CHR 0x27] @ ''.*'' @ [CHR 0x27] @ '' --quiet --fix '',
              printed = [[]], status = 0\<rparr>"
proof -
  let ?env = "\<lparr>in_gha = False, input_files = (\<lambda>fs. fs),
           run = (\<lambda>c i. (0, if c = ''xargs clang-tidy -p=_build/release/ --format-style=file -header-filter=''
                  @ [CHR 0x27] @ ''.*'' @ [CHR 0x27] @ '' --quiet --fix '' then ''/a.cpp:1:1: warning: y'' else [], []))\<rparr>"
  let ?args = "\<lparr>arg_commit = None, arg_fix = None, arg_files = [''a.cpp'']\<rparr>"
  let ?plain = "\<lparr>cmdline = ''xargs clang-tidy -p=_build/release/ --format-style=file -header-filter=''
                  @ [CHR 0x27] @ ''.*'' @ [CHR 0x27] @ '' --quiet  '',
              printed = [[]], status = 1\<rparr>"
  let ?fixing = "\<lparr>cmdline = ''xargs clang-tidy -p=_build/release/ --format-style=file -header-filter=''
                  @ [CHR 0x27] @ ''.*'' @ [CHR 0x27] @ '' --quiet --fix '',
              printed = [[]], status = 0\<rparr>"
  have p: "tidy ?env (?args\<lparr>arg_fix := Some ''yes''\<rparr>) = Inr ?plain" by code_simp
  have f: "tidy ?env (?args\<lparr>arg_fix := Some ''fix''\<rparr>) = Inr ?fixing" by code_simp
  have l: "line_filter ?env (arg_commit ?args) = Inr []" by (simp add: line_filter_def)
  from fix_flag_exactly_fix [of "Some ''yes''" ?env ?args ?plain] p l
  have 1: "fix_flag (Some ''yes'') = [] \<and> cmdline ?plain =
      ''xargs clang-tidy -p=_build/release/ --format-style=file -header-filter='' @ [CHR 0x27] @
      ''.*'' @ [CHR 0x27] @ '' --quiet '' @ [] @ '' '' @ []"
    by auto
  from fix_flag_exactly_fix [of "Some ''fix''" ?env ?args ?fixing] f l
  have 2: "fix_flag (Some ''fix'') = ''--fix'' \<and> cmdline ?fixing =
      ''xargs clang-tidy -p=_build/release/ --format-style=file -header-filter='' @ [CHR 0x27] @
      ''.*'' @ [CHR 0x27] @ '' --quiet '' @ ''--fix'' @ '' '' @ []"
    by auto
  from fix_flag_exactly_fix [of "Some ''Fix''"] have 3: "fix_flag (Some ''Fix'') = []" by simp
  from fix_flag_exactly_fix [of "Some ''true''"] have 4: "fix_flag (Some ''true'') = []" by simp
  from fix_flag_exactly_fix [of None] have 5: "fix_flag None = []" by simp
  from p f 2 3 4 5 show ?thesis by simp
qed

subsection \<open>Lines of a diff\<close>

lemma splitlines_no_linebreak:
  "l \<in> set (splitlines s) \<Longrightarrow> c \<in> set l \<Longrightarrow> \<not> is_linebreak c"
proof (induction s rule: splitlines.induct)
  case (1 s)
  show ?case
  proof (cases "s = []")
    case True
    with 1 show ?thesis by (simp add: splitlines.simps)
  next
    case False
    with "1.prems" have "l = takeWhile (\<lambda>c. \<not> is_linebreak c) s
        \<or> l \<in> set (splitlines (after_break (dropWhile (\<lambda>c. \<not> is_linebreak c) s)))"
      by (subst (asm) splitlines.simps) auto
    then show ?thesis
    proof
      assume "l = takeWhile (\<lambda>c. \<not> is_linebreak c) s"
      with "1.prems" show ?thesis by (auto dest: set_takeWhileD)
    next
      assume "l \<in> set (splitlines (after_break (dropWhile (\<lambda>c. \<not> is_linebreak c) s)))"
      with "1.IH" False "1.prems" show ?thesis by blast
    qed
  qed
qed

lemma splitlines_no_NL: "l \<in> set (splitlines s) \<Longrightarrow> NL \<notin> set l"
  using splitlines_no_linebreak [of l s NL] by (auto simp: is_linebreak_def NL_def)

lemma rstrip_nl_id: "NL \<notin> set l \<Longrightarrow> rstrip_nl l = l"
proof -
  assume "NL \<notin> set l"
  then have "dropWhile (\<lambda>c. c = NL) (rev l) = rev l"
    by (cases "rev l") (auto simp: rev_swap [symmetric])
  then show ?thesis by (simp add: rstrip_nl_def)
qed

lemma rstrip_nl_prefix: "prefix (rstrip_nl l) l"
proof -
  have "rev l = takeWhile (\<lambda>c. c = NL) (rev l) @ dropWhile (\<lambda>c. c = NL) (rev l)" by simp
  then have "l = rev (dropWhile (\<lambda>c. c = NL) (rev l)) @ rev (takeWhile (\<lambda>c. c = NL) (rev l))"
    by (metis rev_append rev_rev_ident)
  then show ?thesis unfolding rstrip_nl_def prefix_def by blast
qed

subsection \<open>The three line patterns\<close>

lemma star_nonempty: "star p s \<noteq> []"
  by (cases s) auto

lemma new_file_marker_iff: "new_file_marker l \<longleftrightarrow> prefix ''+++ b/'' l"
  using star_nonempty [of dot] by (auto simp: new_file_marker_def lit_def)

lemma hunk_header_iff: "hunk_header l \<longleftrightarrow> prefix ''@@'' l"
  by (simp add: hunk_header_def lit_def)

lemma source_file_matches_iff:
  "g \<in> set (source_file_matches l) \<longleftrightarrow>
     (\<exists>a e r. l = ''+++ b/'' @ a @ e @ r \<and> NL \<notin> set a \<and> e \<in> set [''.cpp'', ''.h'', ''.hpp'']
        \<and> at_end r \<and> g = a @ e)"
proof -
  have "g \<in> set (source_file_matches l) \<longleftrightarrow>
      (\<exists>r1 a r2 e r3. r1 \<in> set (lit ''+++ b/'' l) \<and> (a, r2) \<in> set (star dot r1)
         \<and> (e, r3) \<in> set (alt [''.cpp'', ''.h'', ''.hpp''] r2) \<and> at_end r3 \<and> g = a @ e)"
    unfolding source_file_matches_def by fastforce
  also have "\<dots> \<longleftrightarrow> (\<exists>a e r. l = ''+++ b/'' @ a @ e @ r \<and> NL \<notin> set a
        \<and> e \<in> set [''.cpp'', ''.h'', ''.hpp''] \<and> at_end r \<and> g = a @ e)"
    unfolding lit_iff star_iff alt_iff dot_def by blast
  finally show ?thesis .
qed

lemma source_file_marker_new:
  "source_file_marker l = Some g \<Longrightarrow> new_file_marker l"
proof -
  assume "source_file_marker l = Some g"
  then have "g \<in> set (source_file_matches l)"
    by (auto simp: source_file_marker_def split: list.splits)
  then show ?thesis unfolding source_file_matches_iff new_file_marker_iff by auto
qed

lemma source_file_matches_plain:
  assumes "NL \<notin> set l" and "g \<in> set (source_file_matches l)"
  shows "prefix ''+++ b/'' l \<and> g = drop 6 l \<and> source_ext g"
proof -
  from assms(2) obtain a e r where l: "l = ''+++ b/'' @ a @ e @ r"
    and e: "e \<in> set [''.cpp'', ''.h'', ''.hpp'']" and r: "at_end r" and g: "g = a @ e"
    unfolding source_file_matches_iff by blast
  from assms(1) l have "NL \<notin> set r" by auto
  with r have "r = []" by (auto simp: at_end_def)
  with l g e show ?thesis by (auto simp: source_ext_def suffix_def)
qed

lemma source_file_matches_complete:
  assumes "NL \<notin> set l" and "prefix ''+++ b/'' l" and "source_ext (drop 6 l)"
  shows "drop 6 l \<in> set (source_file_matches l)"
proof -
  from assms(2) obtain p where l: "l = ''+++ b/'' @ p" by (auto simp: prefix_def)
  then have p: "drop 6 l = p" by simp
  with assms(3) obtain a e where pe: "p = a @ e" and e: "e \<in> set [''.cpp'', ''.h'', ''.hpp'']"
    unfolding source_ext_def suffix_def by auto
  from assms(1) l pe have "NL \<notin> set a" by auto
  moreover have "l = ''+++ b/'' @ a @ e @ []" using l pe by simp
  moreover have "at_end []" by (simp add: at_end_def)
  ultimately show ?thesis unfolding source_file_matches_iff p using e pe by blast
qed

lemma source_file_marker_plain:
  assumes "NL \<notin> set l" and "prefix ''+++ b/'' l"
  shows "source_file_marker l = (if source_ext (drop 6 l) then Some (drop 6 l) else None)"
proof (cases "source_file_matches l")
  case Nil
  with assms have "\<not> source_ext (drop 6 l)"
    using source_file_matches_complete [of l] by auto
  with Nil show ?thesis by (simp add: source_file_marker_def)
next
  case (Cons g gs)
  then have "g \<in> set (source_file_matches l)" by simp
  from source_file_matches_plain [OF assms(1) this]
  have "g = drop 6 l" and "source_ext g" by blast+
  then have "source_ext (drop 6 l)" by simp
  with Cons \<open>g = drop 6 l\<close> show ?thesis by (simp add: source_file_marker_def)
qed

lemma source_file_marker_none:
  assumes "\<not> prefix ''+++ b/'' l"
  shows "source_file_marker l = None"
  using assms source_file_marker_new [of l] by (cases "source_file_marker l") (auto simp: new_file_marker_iff)

subsection \<open>One step of the loop\<close>

lemma next_file_other: "\<not> prefix ''+++ b/'' l \<Longrightarrow> next_file f l = f"
  using source_file_marker_new [of l]
  by (cases "source_file_marker l") (auto simp: next_file_def new_file_marker_iff)

lemma next_file_marker:
  "NL \<notin> set l \<Longrightarrow> prefix ''+++ b/'' l \<Longrightarrow>
     next_file f l = (if source_ext (drop 6 l) then drop 6 l else [])"
  by (simp add: next_file_def source_file_marker_plain new_file_marker_iff)

lemma next_file_empty:
  "source_file_marker l = None \<Longrightarrow> next_file [] l = []"
  by (simp add: next_file_def)

lemma prefix_rstrip: "prefix w (rstrip_nl l) \<Longrightarrow> prefix w l"
  using rstrip_nl_prefix [of l] by (rule prefix_order.trans [rotated])

lemma loop_body_no_hunk:
  "\<not> prefix ''@@'' l \<Longrightarrow>
     loop_body st l = Inr \<lparr>cur_file = next_file (cur_file st) (rstrip_nl l), changed_lines = changed_lines st\<rparr>"
  using prefix_rstrip [of "''@@''" l] by (auto simp: loop_body_def Let_def hunk_header_iff)

lemma loop_body_other:
  assumes "\<not> prefix ''@@'' l" and "\<not> prefix ''+++ b/'' l"
  shows "loop_body st l = Inr st"
proof -
  from assms(2) have "\<not> prefix ''+++ b/'' (rstrip_nl l)" using prefix_rstrip by blast
  then show ?thesis using assms(1) by (simp add: loop_body_no_hunk next_file_other)
qed

lemma loop_body_no_file:
  assumes "cur_file st = []" and "\<not> prefix ''+++ b/'' l"
  shows "loop_body st l = Inr st"
proof -
  from assms(2) have "\<not> prefix ''+++ b/'' (rstrip_nl l)" using prefix_rstrip by blast
  then have "next_file (cur_file st) (rstrip_nl l) = []" using assms(1) by (simp add: next_file_other)
  then show ?thesis using assms(1) by (simp add: loop_body_def Let_def)
qed

lemma loop_body_marker:
  assumes "NL \<notin> set l" and "prefix ''+++ b/'' l"
  shows "loop_body st l =
     Inr \<lparr>cur_file = (if source_ext (drop 6 l) then drop 6 l else []), changed_lines = changed_lines st\<rparr>"
proof -
  have "rstrip_nl l = l" using assms(1) by (rule rstrip_nl_id)
  moreover have "\<not> prefix ''@@'' l" using assms(2) by (auto simp: prefix_def)
  ultimately show ?thesis using assms by (simp add: loop_body_no_hunk next_file_marker)
qed

lemma loop_body_hunk:
  assumes "NL \<notin> set l" and "prefix ''@@'' l" and "cur_file st \<noteq> []"
  shows "loop_body st l =
     (case hunk_line_range (split_ws l) of
        Inl e \<Rightarrow> Inl e
      | Inr r \<Rightarrow> Inr \<lparr>cur_file = cur_file st,
                     changed_lines = multimap_set (changed_lines st) (cur_file st) r\<rparr>)"
proof -
  have "\<not> prefix ''+++ b/'' l" using assms(2) by (auto simp: prefix_def)
  then have "next_file (cur_file st) l = cur_file st" by (rule next_file_other)
  moreover have "rstrip_nl l = l" using assms(1) by (rule rstrip_nl_id)
  ultimately show ?thesis using assms(2,3)
    by (simp add: loop_body_def Let_def hunk_header_iff split: sum.splits)
qed

subsection \<open>The loop\<close>

lemma scan_append:
  "scan st (xs @ ys) = (case scan st xs of Inl e \<Rightarrow> Inl e | Inr st' \<Rightarrow> scan st' ys)"
  by (induction xs arbitrary: st) (auto split: sum.splits)

lemma scan_no_file:
  assumes "cur_file st = []" and "\<forall>l\<in>set ls. \<not> prefix ''+++ b/'' l"
  shows "scan st ls = Inr st"
  using assms by (induction ls) (auto simp: loop_body_no_file)

lemma loop_body_ignored:
  assumes "cur_file st = []" and "NL \<notin> set l"
    and "\<not> (prefix ''+++ b/'' l \<and> source_ext (drop 6 l))"
  shows "loop_body st l = Inr st"
proof (cases "prefix ''+++ b/'' l")
  case True
  with assms show ?thesis by (simp add: loop_body_marker)
next
  case False
  with assms(1) show ?thesis by (rule loop_body_no_file)
qed

lemma scan_ignored:
  assumes "cur_file st = []" and "\<forall>l\<in>set ls. NL \<notin> set l"
    and "\<forall>l\<in>set ls. \<not> (prefix ''+++ b/'' l \<and> source_ext (drop 6 l))"
  shows "scan st ls = Inr st"
  using assms by (induction ls) (auto simp: loop_body_ignored)

subsection \<open>Evaluation on concrete texts\<close>

lemmas diff_eval = changed_ranges_def init_state_def splitlines.simps after_break_def
  is_linebreak_def loop_body_def Let_def rstrip_nl_def split_ws.simps is_space_def next_file_def
  new_file_marker_def source_file_marker_def source_file_matches_def hunk_header_def
  hunk_line_range_def item_def hunk_span_def hunk_range_def int_of_str_def strip_ws_def
  int_unsigned_def is_digit_def digit_val_def regex_eval

subsection \<open>Hunks outside a recognised file\<close>

text \<open>
  While \<open>file\<close> is empty, the lines of a section that has no
  \<open>+++ b/\<close> line leave the state as it is, and so does a hunk header that follows them: the
  hunk contributes no range, and the output is what the rest of the diff produces.  With
  nothing before the section (\<open>pre = []\<close>, \<open>st = init_state\<close>) this is a hunk header that no
  \<open>+++ b/\<close> line precedes.
\<close>

lemma hunk_without_file_skipped:
  assumes "splitlines diff = pre @ sec @ [h] @ post"
    and "scan init_state pre = Inr st" and "cur_file st = []"
    and "\<forall>l\<in>set sec. \<not> prefix ''+++ b/'' l" and "prefix ''@@'' h"
  shows "scan init_state (pre @ sec @ [h]) = Inr st \<and>
         changed_ranges diff =
           (case scan st post of Inl e \<Rightarrow> Inl e | Inr st' \<Rightarrow> Inr (changed_lines st'))"
proof -
  have "\<not> prefix ''+++ b/'' h" using assms(5) by (auto simp: prefix_def)
  with assms(4) have "\<forall>l\<in>set (sec @ [h]). \<not> prefix ''+++ b/'' l" by simp
  with assms(3) have "scan st (sec @ [h]) = Inr st" by (rule scan_no_file)
  with assms(2) have 1: "scan init_state (pre @ sec @ [h]) = Inr st"
    by (simp add: scan_append)
  have "splitlines diff = (pre @ sec @ [h]) @ post" using assms(1) by simp
  then have "scan init_state (splitlines diff) = scan st post"
    using 1 by (simp only: scan_append [of _ "pre @ sec @ [h]"] sum.case)
  with 1 show ?thesis by (simp add: changed_ranges_def)
qed

lemma hunk_without_file_skipped_example:
  "splitlines ''--- a/x.cpp\<newline>+++ /dev/null\<newline>@@ -1,5 +0,0 @@\<newline>+++ b/a.cpp\<newline>@@ -1 +2,3 @@''
     = [] @ [''--- a/x.cpp'', ''+++ /dev/null''] @ [''@@ -1,5 +0,0 @@''] @ [''+++ b/a.cpp'', ''@@ -1 +2,3 @@'']
   \<and> scan init_state ([] @ [''--- a/x.cpp'', ''+++ /dev/null''] @ [''@@ -1,5 +0,0 @@'']) = Inr init_state
   \<and> changed_ranges ''--- a/x.cpp\<newline>+++ /dev/null\<newline>@@ -1,5 +0,0 @@\<newline>+++ b/a.cpp\<newline>@@ -1 +2,3 @@''
     = Inr [(''a.cpp'', [(2, 5)])]"
  using hunk_without_file_skipped [of
      "''--- a/x.cpp\<newline>+++ /dev/null\<newline>@@ -1,5 +0,0 @@\<newline>+++ b/a.cpp\<newline>@@ -1 +2,3 @@''"
      "[]" "[''--- a/x.cpp'', ''+++ /dev/null'']" "''@@ -1,5 +0,0 @@''"
      "[''+++ b/a.cpp'', ''@@ -1 +2,3 @@'']" init_state]
  by (simp add: diff_eval)

text \<open>
  C2 (as the code has it).  A hunk whose section has no \<open>+++ b/\<close> line is skipped only
  while \<open>file\<close> is empty.  Only a line that starts with \<open>+++ b/\<close> resets \<open>file\<close> (line 41),
  so \<open>+++ /dev/null\<close> after the section of a recognised file leaves it set.  Below, the last
  hunk stands under \<open>+++ /dev/null\<close>; it is recorded as the range \<open>[0, 0]\<close> of \<open>a.cpp\<close>, the
  file of the section before, and that range is in the document handed to the tool.  With
  \<open>+++ b/x.py\<close> in place of \<open>+++ /dev/null\<close> the same hunk is skipped.
\<close>

theorem deleted_file_hunk_misattributed:
  \<open>splitlines ''+++ b/a.cpp\<newline>@@ -1 +2,3 @@\<newline>--- a/x.cpp\<newline>+++ /dev/null\<newline>@@ -1,5 +0,0 @@''
     = [''+++ b/a.cpp'', ''@@ -1 +2,3 @@'', ''--- a/x.cpp'', ''+++ /dev/null'', ''@@ -1,5 +0,0 @@'']
   \<and> changed_ranges ''+++ b/a.cpp\<newline>@@ -1 +2,3 @@\<newline>--- a/x.cpp\<newline>+++ /dev/null''
     = Inr [(''a.cpp'', [(2, 5)])]
   \<and> changed_ranges ''+++ b/a.cpp\<newline>@@ -1 +2,3 @@\<newline>--- a/x.cpp\<newline>+++ /dev/null\<newline>@@ -1,5 +0,0 @@''
     = Inr [(''a.cpp'', [(2, 5), (0, 0)])]
   \<and> git_changed_lines ''+++ b/a.cpp\<newline>@@ -1 +2,3 @@\<newline>--- a/x.cpp\<newline>+++ /dev/null\<newline>@@ -1,5 +0,0 @@''
     = Inr ''[{"name": "a.cpp", "lines": [[2, 5], [0, 0]]}]''
   \<and> changed_ranges ''+++ b/a.cpp\<newline>@@ -1 +2,3 @@\<newline>--- a/x.cpp\<newline>+++ b/x.py\<newline>@@ -1,5 +0,0 @@''
     = Inr [(''a.cpp'', [(2, 5)])]\<close>
  by code_simp

text \<open>
  C6.  A marker \<open>+++ b/<path>\<close> whose path has none of the three extensions clears \<open>file\<close>
  and leaves the recorded ranges alone; the lines after it, up to the next marker with a
  recognised extension, change nothing (hunk headers among them record no range, whatever
  their shape); that next marker sets \<open>file\<close> to its path.
\<close>

theorem other_marker_clears_file:
  assumes "splitlines diff = pre @ [''+++ b/'' @ p] @ mid @ post"
    and "\<not> source_ext p"
    and "\<forall>l\<in>set mid. \<not> (prefix ''+++ b/'' l \<and> source_ext (drop 6 l))"
    and "scan init_state pre = Inr st"
  shows "scan init_state (pre @ [''+++ b/'' @ p]) = Inr \<lparr>cur_file = [], changed_lines = changed_lines st\<rparr>
       \<and> scan init_state (pre @ [''+++ b/'' @ p] @ mid) = Inr \<lparr>cur_file = [], changed_lines = changed_lines st\<rparr>
       \<and> (\<forall>q post'. post = (''+++ b/'' @ q) # post' \<and> source_ext q \<longrightarrow>
            scan init_state (pre @ [''+++ b/'' @ p] @ mid @ [''+++ b/'' @ q])
              = Inr \<lparr>cur_file = q, changed_lines = changed_lines st\<rparr>)"
proof -
  let ?m = "''+++ b/'' @ p"
  let ?st = "\<lparr>cur_file = [], changed_lines = changed_lines st\<rparr>"
  have nl: "NL \<notin> set l" if "l \<in> set (splitlines diff)" for l
    using that by (rule splitlines_no_NL)
  have "?m \<in> set (splitlines diff)" unfolding assms(1) by simp
  then have "NL \<notin> set ?m" by (rule nl)
  moreover have "prefix ''+++ b/'' ?m" by simp
  ultimately have "loop_body st ?m =
      Inr \<lparr>cur_file = (if source_ext (drop 6 ?m) then drop 6 ?m else []), changed_lines = changed_lines st\<rparr>"
    by (rule loop_body_marker)
  then have m: "loop_body st ?m = Inr ?st" using assms(2) by simp
  have 1: "scan init_state (pre @ [?m]) = Inr ?st"
    using assms(4) m by (simp add: scan_append)
  have "\<forall>l\<in>set mid. NL \<notin> set l" using nl unfolding assms(1) by simp
  with assms(3) have "scan ?st mid = Inr ?st"
    by (intro scan_ignored) simp_all
  with 1 have 2: "scan init_state ((pre @ [?m]) @ mid) = Inr ?st"
    by (simp only: scan_append [of _ "pre @ [?m]"] sum.case)
  have 3: "scan init_state (pre @ [?m] @ mid @ [''+++ b/'' @ q])
            = Inr \<lparr>cur_file = q, changed_lines = changed_lines st\<rparr>"
    if "post = (''+++ b/'' @ q) # post'" and "source_ext q" for q post'
  proof -
    let ?q = "''+++ b/'' @ q"
    have "?q \<in> set (splitlines diff)" unfolding assms(1) that(1) by simp
    then have "NL \<notin> set ?q" by (rule nl)
    moreover have "prefix ''+++ b/'' ?q" by simp
    ultimately have "loop_body ?st ?q =
        Inr \<lparr>cur_file = (if source_ext (drop 6 ?q) then drop 6 ?q else []),
             changed_lines = changed_lines ?st\<rparr>"
      by (rule loop_body_marker)
    then have "loop_body ?st ?q = Inr \<lparr>cur_file = q, changed_lines = changed_lines st\<rparr>"
      using that(2) by simp
    then have "scan ?st [?q] = Inr \<lparr>cur_file = q, changed_lines = changed_lines st\<rparr>" by simp
    with 2 have "scan init_state (((pre @ [?m]) @ mid) @ [?q])
        = Inr \<lparr>cur_file = q, changed_lines = changed_lines st\<rparr>"
      by (simp only: scan_append [of _ "(pre @ [?m]) @ mid"] sum.case)
    then show ?thesis by simp
  qed
  from 1 2 3 show ?thesis by simp
qed

theorem other_marker_clears_file_witness:
  "splitlines ''+++ b/a.cpp\<newline>@@ -1 +2,3 @@\<newline>+++ b/x.py\<newline>@@ -4 +5,6 @@\<newline>@@ bad\<newline>+++ b/b.h\<newline>@@ -7 +8 @@''
     = [''+++ b/a.cpp'', ''@@ -1 +2,3 @@''] @ [''+++ b/'' @ ''x.py''] @ [''@@ -4 +5,6 @@'', ''@@ bad'']
       @ [''+++ b/b.h'', ''@@ -7 +8 @@'']
   \<and> scan init_state ([''+++ b/a.cpp'', ''@@ -1 +2,3 @@''] @ [''+++ b/'' @ ''x.py''] @ [''@@ -4 +5,6 @@'', ''@@ bad''])
     = Inr \<lparr>cur_file = [], changed_lines = [(''a.cpp'', [(2, 5)])]\<rparr>
   \<and> scan init_state ([''+++ b/a.cpp'', ''@@ -1 +2,3 @@''] @ [''+++ b/'' @ ''x.py''] @ [''@@ -4 +5,6 @@'', ''@@ bad'']
       @ [''+++ b/'' @ ''b.h''])
     = Inr \<lparr>cur_file = ''b.h'', changed_lines = [(''a.cpp'', [(2, 5)])]\<rparr>"
  using other_marker_clears_file [of
      "''+++ b/a.cpp\<newline>@@ -1 +2,3 @@\<newline>+++ b/x.py\<newline>@@ -4 +5,6 @@\<newline>@@ bad\<newline>+++ b/b.h\<newline>@@ -7 +8 @@''"
      "[''+++ b/a.cpp'', ''@@ -1 +2,3 @@'']" "''x.py''" "[''@@ -4 +5,6 @@'', ''@@ bad'']"
      "[''+++ b/b.h'', ''@@ -7 +8 @@'']" "\<lparr>cur_file = ''a.cpp'', changed_lines = [(''a.cpp'', [(2, 5)])]\<rparr>"]
  by (simp add: diff_eval source_ext_def)

subsection \<open>Decimal numerals\<close>

lemma digit_char_digit:
  assumes "d < 10"
  shows "is_digit (digit_char d)" and "digit_val (digit_char d) = d"
proof -
  from assms have "d \<in> {0, 1, 2, 3, 4, 5, 6, 7, 8, 9}" by auto
  then show "is_digit (digit_char d)" and "digit_val (digit_char d) = d"
    by (auto simp: digit_char_def is_digit_def digit_val_def)
qed

lemma dec_digits: "c \<in> set (dec n) \<Longrightarrow> is_digit c"
proof (induction n rule: dec.induct)
  case (1 n)
  show ?case
  proof (cases "n < 10")
    case True
    with "1.prems" show ?thesis by (simp add: dec.simps [of n] digit_char_digit)
  next
    case False
    with "1.prems" have "c \<in> set (dec (n div 10)) \<or> c = digit_char (n mod 10)"
      by (auto simp: dec.simps [of n])
    with False "1.IH" show ?thesis by (auto simp: digit_char_digit)
  qed
qed

lemma dec_nonempty: "dec n \<noteq> []"
  by (subst dec.simps) simp

lemma int_digits_all:
  "\<forall>c\<in>set ds. is_digit c \<Longrightarrow>
     int_digits acc ds = Some (foldl (\<lambda>a c. 10 * a + digit_val c) acc ds)"
  by (induction acc ds rule: int_digits.induct) auto

lemma foldl_dec: "foldl (\<lambda>a c. 10 * a + digit_val c) 0 (dec n) = n"
proof (induction n rule: dec.induct)
  case (1 n)
  show ?case
  proof (cases "n < 10")
    case True
    then show ?thesis by (simp add: dec.simps [of n] digit_char_digit)
  next
    case False
    with "1.IH" show ?thesis by (simp add: dec.simps [of n] digit_char_digit)
  qed
qed

lemma int_unsigned_dec: "int_unsigned (dec n) = Some n"
proof (cases "dec n")
  case Nil
  then show ?thesis using dec_nonempty by simp
next
  case (Cons c cs)
  then have d: "\<forall>x\<in>set (c # cs). is_digit x" using dec_digits [of _ n] by simp
  then have 1: "int_digits (digit_val c) cs = Some (foldl (\<lambda>a c. 10 * a + digit_val c) (digit_val c) cs)"
    by (intro int_digits_all) simp
  have "foldl (\<lambda>a c. 10 * a + digit_val c) 0 (c # cs) = n"
    using foldl_dec [of n] unfolding Cons .
  then have "foldl (\<lambda>a c. 10 * a + digit_val c) (digit_val c) cs = n" by simp
  with 1 d show ?thesis by (simp add: int_unsigned_def Cons)
qed

lemma digit_not_special:
  "is_digit c \<Longrightarrow> \<not> is_space c \<and> c \<noteq> CHR '','' \<and> c \<noteq> CHR ''+'' \<and> c \<noteq> CHR ''-''"
  by (auto simp: is_digit_def is_space_def)

lemma strip_ws_id: "\<forall>c\<in>set s. \<not> is_space c \<Longrightarrow> strip_ws s = s"
proof -
  assume a: "\<forall>c\<in>set s. \<not> is_space c"
  then have 1: "dropWhile is_space s = s" by (cases s) auto
  from a have "dropWhile is_space (rev s) = rev s" by (cases "rev s") (auto simp: rev_swap [symmetric])
  with 1 show ?thesis by (simp add: strip_ws_def)
qed

lemma int_of_str_dec: "int_of_str (dec n) = Inr (int n)"
proof -
  have ns: "\<forall>c\<in>set (dec n). \<not> is_space c" using dec_digits digit_not_special by blast
  obtain c cs where d: "dec n = c # cs" using dec_nonempty by (cases "dec n") auto
  then have "is_digit c" using dec_digits [of c n] by simp
  then have "c \<noteq> CHR ''+''" "c \<noteq> CHR ''-''" using digit_not_special by blast+
  moreover have "strip_ws (c # cs) = c # cs" using strip_ws_id [OF ns] unfolding d .
  moreover have "int_unsigned (c # cs) = Some n" using int_unsigned_dec [of n] unfolding d .
  ultimately show ?thesis by (simp add: int_of_str_def d Let_def)
qed

lemma int_of_str_plus_dec: "int_of_str (CHR ''+'' # dec n) = Inr (int n)"
proof -
  have "\<forall>c\<in>set (CHR ''+'' # dec n). \<not> is_space c"
    using dec_digits digit_not_special by (auto simp: is_space_def)
  then have "strip_ws (CHR ''+'' # dec n) = CHR ''+'' # dec n" by (rule strip_ws_id)
  then show ?thesis by (simp add: int_of_str_def Let_def int_unsigned_dec)
qed

subsection \<open>Splitting\<close>

lemma dec_no_comma: "CHR '','' \<notin> set (dec n)"
  using dec_digits [of "CHR '',''" n] by (auto simp: is_digit_def)

lemma dec_no_space: "c \<in> set (dec n) \<Longrightarrow> \<not> is_space c"
  using dec_digits [of c n] digit_not_special [of c] by blast

lemma split_on_plain: "sep \<notin> set a \<Longrightarrow> split_on sep a = [a]"
  by (induction a) auto

lemma split_on_sep: "sep \<notin> set a \<Longrightarrow> split_on sep (a @ sep # b) = a # split_on sep b"
  by (induction a) auto

lemma split_ws_skip: "is_space c \<Longrightarrow> split_ws (c # s) = split_ws s"
  by (simp add: split_ws.simps [of "c # s"] split_ws.simps [of s])

lemma split_ws_token:
  assumes "t \<noteq> []" and "\<forall>c\<in>set t. \<not> is_space c" and "is_space sp"
  shows "split_ws (t @ sp # rest) = t # split_ws rest"
proof -
  obtain c cs where t: "t = c # cs" using assms(1) by (cases t) auto
  with assms(2) have c: "\<not> is_space c" and cs: "\<forall>x\<in>set cs. \<not> is_space x" by auto
  have 1: "takeWhile (\<lambda>x. \<not> is_space x) (cs @ sp # rest) = cs"
    using cs assms(3) by (induction cs) auto
  have 2: "dropWhile (\<lambda>x. \<not> is_space x) (cs @ sp # rest) = sp # rest"
    using cs assms(3) by (induction cs) auto
  have "split_ws (t @ sp # rest) = (c # cs) # split_ws (sp # rest)"
    unfolding t using c by (subst split_ws.simps) (simp add: 1 2)
  then show ?thesis using assms(3) by (simp add: t split_ws_skip)
qed

lemma hunk_fields:
  assumes "old \<noteq> []" and "\<forall>c\<in>set old. \<not> is_space c"
    and "new \<noteq> []" and "\<forall>c\<in>set new. \<not> is_space c"
  shows "hunk_line_range (split_ws (''@@ '' @ old @ '' '' @ new @ '' @@'' @ rest))
          = hunk_range (hunk_span new)"
proof -
  have sp: "is_space CHR '' ''" by (simp add: is_space_def)
  have e: "''@@ '' @ old @ '' '' @ new @ '' @@'' @ rest
      = ''@@'' @ CHR '' '' # (old @ CHR '' '' # (new @ CHR '' '' # (''@@'' @ rest)))"
    by simp
  have 1: "split_ws (''@@'' @ CHR '' '' # (old @ CHR '' '' # (new @ CHR '' '' # (''@@'' @ rest))))
      = ''@@'' # split_ws (old @ CHR '' '' # (new @ CHR '' '' # (''@@'' @ rest)))"
    by (rule split_ws_token) (simp_all add: is_space_def)
  have 2: "split_ws (old @ CHR '' '' # (new @ CHR '' '' # (''@@'' @ rest)))
      = old # split_ws (new @ CHR '' '' # (''@@'' @ rest))"
    using assms(1,2) sp by (rule split_ws_token)
  have 3: "split_ws (new @ CHR '' '' # (''@@'' @ rest)) = new # split_ws (''@@'' @ rest)"
    using assms(3,4) sp by (rule split_ws_token)
  have "split_ws (''@@ '' @ old @ '' '' @ new @ '' @@'' @ rest)
      = ''@@'' # old # new # split_ws (''@@'' @ rest)"
    by (simp only: e 1 2 3)
  then show ?thesis by (simp add: hunk_line_range_def item_def)
qed

lemma hunk_range_start_count:
  "hunk_range (hunk_span (''+'' @ dec c @ '','' @ dec d)) = Inr (int c, int c + int d)"
proof -
  have "CHR '','' \<notin> set (CHR ''+'' # dec c)" using dec_no_comma [of c] by simp
  then have "split_on (CHR '','') ((CHR ''+'' # dec c) @ CHR '','' # dec d)
      = (CHR ''+'' # dec c) # split_on (CHR '','') (dec d)"
    by (rule split_on_sep)
  moreover have "split_on (CHR '','') (dec d) = [dec d]"
    using dec_no_comma by (rule split_on_plain)
  ultimately have "hunk_span (''+'' @ dec c @ '','' @ dec d) = [PStr (CHR ''+'' # dec c), PStr (dec d)]"
    by (simp add: hunk_span_def)
  then show ?thesis
    by (simp add: hunk_range_def item_def int_of_str_plus_dec int_of_str_dec)
qed

lemma hunk_range_start_only:
  "hunk_range (hunk_span (''+'' @ dec c)) = Inr (int c, int c)"
proof -
  have "CHR '','' \<notin> set (CHR ''+'' # dec c)" using dec_no_comma [of c] by simp
  then have "split_on (CHR '','') (CHR ''+'' # dec c) = [CHR ''+'' # dec c]"
    by (rule split_on_plain)
  then have "hunk_span (''+'' @ dec c) = [PStr (CHR ''+'' # dec c), PInt 0]"
    by (simp add: hunk_span_def)
  then show ?thesis
    by (simp add: hunk_range_def item_def int_of_str_plus_dec)
qed

subsection \<open>What a run records\<close>

lemma multimap_set_has: "\<exists>rs. (k, rs) \<in> set (multimap_set m k v) \<and> v \<in> set rs"
  by (induction m k v rule: multimap_set.induct) auto

lemma multimap_set_keeps:
  "(k, rs) \<in> set m \<Longrightarrow> \<exists>rs'. (k, rs @ rs') \<in> set (multimap_set m k' v)"
proof (induction m k' v rule: multimap_set.induct)
  case (1 key v)
  then show ?case by simp
next
  case (2 k0 vs m key v)
  show ?case
  proof (cases "(k, rs) = (k0, vs)")
    case True
    then show ?thesis by (cases "k0 = key") (auto intro: exI [of _ "[]"])
  next
    case False
    with "2.prems" have "(k, rs) \<in> set m" by auto
    show ?thesis
    proof (cases "k0 = key")
      case True
      with \<open>(k, rs) \<in> set m\<close> show ?thesis by (auto intro: exI [of _ "[]"])
    next
      case False
      with "2.IH" \<open>(k, rs) \<in> set m\<close> show ?thesis by auto
    qed
  qed
qed

lemma loop_body_changed_lines:
  assumes "loop_body st l = Inr st'"
  shows "changed_lines st' = changed_lines st \<or>
     (\<exists>f r. changed_lines st' = multimap_set (changed_lines st) f r)"
proof (cases "hunk_header (rstrip_nl l) \<and> next_file (cur_file st) (rstrip_nl l) \<noteq> []")
  case True
  with assms obtain r where
    "st' = \<lparr>cur_file = next_file (cur_file st) (rstrip_nl l),
           changed_lines = multimap_set (changed_lines st) (next_file (cur_file st) (rstrip_nl l)) r\<rparr>"
    by (auto simp: loop_body_def Let_def split: sum.splits)
  then have "changed_lines st' = multimap_set (changed_lines st) (next_file (cur_file st) (rstrip_nl l)) r"
    by simp
  then show ?thesis by blast
next
  case False
  with assms show ?thesis by (auto simp: loop_body_def Let_def)
qed

lemma loop_body_cur_file:
  "loop_body st l = Inr st' \<Longrightarrow> cur_file st' = next_file (cur_file st) (rstrip_nl l)"
  by (auto simp: loop_body_def Let_def split: if_splits sum.splits)

lemma loop_body_keeps:
  assumes "loop_body st l = Inr st'" and "(k, rs) \<in> set (changed_lines st)"
  shows "\<exists>rs'. (k, rs @ rs') \<in> set (changed_lines st')"
  using loop_body_changed_lines [OF assms(1)]
proof
  assume "changed_lines st' = changed_lines st"
  with assms(2) show ?thesis by (auto intro: exI [of _ "[]"])
next
  assume "\<exists>f r. changed_lines st' = multimap_set (changed_lines st) f r"
  with assms(2) show ?thesis using multimap_set_keeps by fastforce
qed

lemma scan_keeps:
  "scan st ls = Inr st' \<Longrightarrow> (k, rs) \<in> set (changed_lines st) \<Longrightarrow>
     \<exists>rs'. (k, rs @ rs') \<in> set (changed_lines st')"
proof (induction ls arbitrary: st rs)
  case Nil
  then show ?case by (auto intro: exI [of _ "[]"])
next
  case (Cons l ls)
  from Cons.prems(1) obtain st1 where 1: "loop_body st l = Inr st1" and 2: "scan st1 ls = Inr st'"
    by (auto split: sum.splits)
  from loop_body_keeps [OF 1 Cons.prems(2)] obtain rs1 where "(k, rs @ rs1) \<in> set (changed_lines st1)"
    by blast
  from Cons.IH [OF 2 this] obtain rs2 where "(k, (rs @ rs1) @ rs2) \<in> set (changed_lines st')"
    by blast
  then show ?case by (auto intro: exI [of _ "rs1 @ rs2"])
qed

lemma scan_append_Inr:
  "scan st (xs @ ys) = Inr st'' \<longleftrightarrow> (\<exists>st'. scan st xs = Inr st' \<and> scan st' ys = Inr st'')"
  by (auto simp: scan_append split: sum.splits)

lemma scan_keeps_file:
  "scan st ls = Inr st' \<Longrightarrow> \<forall>l\<in>set ls. \<not> prefix ''+++ b/'' l \<Longrightarrow> cur_file st' = cur_file st"
proof (induction ls arbitrary: st)
  case Nil
  then show ?case by simp
next
  case (Cons l ls)
  from Cons.prems(1) obtain st1 where 1: "loop_body st l = Inr st1" and 2: "scan st1 ls = Inr st'"
    by (auto split: sum.splits)
  from Cons.prems(2) have "\<not> prefix ''+++ b/'' (rstrip_nl l)" using prefix_rstrip by auto
  then have "cur_file st1 = cur_file st"
    using loop_body_cur_file [OF 1] by (simp add: next_file_other)
  with Cons.IH [OF 2] Cons.prems(2) show ?case by simp
qed

lemma source_ext_nonempty: "source_ext x \<Longrightarrow> x \<noteq> []"
  by (auto simp: source_ext_def)

lemma scan_snoc:
  "scan st (xs @ [l]) = (case scan st xs of Inl e \<Rightarrow> Inl e | Inr st' \<Rightarrow> loop_body st' l)"
  by (simp add: scan_append split: sum.splits)

lemma hunk_recorded_step:
  assumes m: "NL \<notin> set m" "prefix ''+++ b/'' m" "source_ext (drop 6 m)"
    and mid: "\<forall>l\<in>set mid. \<not> prefix ''+++ b/'' l"
    and h: "NL \<notin> set h" "prefix ''@@'' h" "hunk_line_range (split_ws h) = Inr r"
    and st: "scan st0 (pre @ m # mid) = Inr st"
  shows "scan st0 ((pre @ m # mid) @ [h])
           = Inr \<lparr>cur_file = drop 6 m, changed_lines = multimap_set (changed_lines st) (drop 6 m) r\<rparr>"
proof -
  from st obtain sa where "scan st0 pre = Inr sa" and b: "scan sa (m # mid) = Inr st"
    unfolding scan_append_Inr by blast
  from b obtain sb where c: "loop_body sa m = Inr sb" and d: "scan sb mid = Inr st"
    by (cases "loop_body sa m") simp_all
  from c have "cur_file sb = drop 6 m"
    unfolding loop_body_marker [OF m(1,2)] using m(3) by auto
  with scan_keeps_file [OF d mid] have f: "cur_file st = drop 6 m" by simp
  then have "cur_file st \<noteq> []" using source_ext_nonempty [OF m(3)] by simp
  from loop_body_hunk [OF h(1,2) this]
  have "loop_body st h = Inr \<lparr>cur_file = drop 6 m,
      changed_lines = multimap_set (changed_lines st) (drop 6 m) r\<rparr>"
    unfolding h(3) f by simp
  then show ?thesis unfolding scan_snoc st by simp
qed

lemma hunk_recorded_doc:
  assumes m: "NL \<notin> set m" "prefix ''+++ b/'' m" "source_ext (drop 6 m)"
    and mid: "\<forall>l\<in>set mid. \<not> prefix ''+++ b/'' l"
    and h: "NL \<notin> set h" "prefix ''@@'' h" "hunk_line_range (split_ws h) = Inr r"
    and f: "scan st0 (((pre @ m # mid) @ [h]) @ post) = Inr stf"
  shows "\<exists>rs. (drop 6 m, rs) \<in> set (changed_lines stf) \<and> r \<in> set rs"
proof -
  from f obtain st2 where b: "scan st0 ((pre @ m # mid) @ [h]) = Inr st2"
    and c: "scan st2 post = Inr stf"
    unfolding scan_append_Inr [of st0 "(pre @ m # mid) @ [h]" post] by blast
  from b obtain st where a: "scan st0 (pre @ m # mid) = Inr st"
    unfolding scan_append_Inr [of st0 "pre @ m # mid" "[h]"] by blast
  from hunk_recorded_step [OF m mid h a] b
  have "st2 = \<lparr>cur_file = drop 6 m, changed_lines = multimap_set (changed_lines st) (drop 6 m) r\<rparr>"
    by simp
  then have "changed_lines st2 = multimap_set (changed_lines st) (drop 6 m) r" by simp
  then obtain rs where "(drop 6 m, rs) \<in> set (changed_lines st2)" and rr: "r \<in> set rs"
    using multimap_set_has [of "drop 6 m" "changed_lines st" r] by auto
  from scan_keeps [OF c this(1)] obtain rs' where "(drop 6 m, rs @ rs') \<in> set (changed_lines stf)"
    by blast
  with rr show ?thesis by (intro exI [of _ "rs @ rs'"]) simp
qed

text \<open>A hunk header under a recognised file, with the range \<open>r\<close> its fields give.\<close>

lemma hunk_recorded:
  assumes lines: "splitlines diff = pre @ [''+++ b/'' @ x] @ mid @ [h] @ post"
    and x: "source_ext x"
    and mid: "\<forall>l\<in>set mid. \<not> prefix ''+++ b/'' l"
    and h: "prefix ''@@'' h"
    and r: "hunk_line_range (split_ws h) = Inr r"
  shows "scan init_state (pre @ [''+++ b/'' @ x] @ mid) = Inr st \<longrightarrow>
           scan init_state (pre @ [''+++ b/'' @ x] @ mid @ [h])
             = Inr \<lparr>cur_file = x, changed_lines = multimap_set (changed_lines st) x r\<rparr>"
    and "changed_ranges diff = Inr doc \<longrightarrow> (\<exists>rs. (x, rs) \<in> set doc \<and> r \<in> set rs)"
proof -
  define m where "m = ''+++ b/'' @ x"
  have lines': "splitlines diff = ((pre @ m # mid) @ [h]) @ post"
    unfolding lines m_def by simp
  have "m \<in> set (splitlines diff)" and "h \<in> set (splitlines diff)"
    unfolding lines' by simp_all
  then have nl: "NL \<notin> set m" "NL \<notin> set h" by (auto dest: splitlines_no_NL)
  have pm: "prefix ''+++ b/'' m" and dm: "drop 6 m = x" unfolding m_def by simp_all
  have xm: "source_ext (drop 6 m)" unfolding dm by (rule x)
  have e1: "pre @ [''+++ b/'' @ x] @ mid = pre @ m # mid" unfolding m_def by simp
  have e2: "pre @ [''+++ b/'' @ x] @ mid @ [h] = (pre @ m # mid) @ [h]" unfolding m_def by simp
  show "scan init_state (pre @ [''+++ b/'' @ x] @ mid) = Inr st \<longrightarrow>
           scan init_state (pre @ [''+++ b/'' @ x] @ mid @ [h])
             = Inr \<lparr>cur_file = x, changed_lines = multimap_set (changed_lines st) x r\<rparr>"
    unfolding e1 e2
    using hunk_recorded_step [OF nl(1) pm xm mid nl(2) h r, of init_state pre st]
    unfolding dm by blast
  show "changed_ranges diff = Inr doc \<longrightarrow> (\<exists>rs. (x, rs) \<in> set doc \<and> r \<in> set rs)"
  proof
    assume "changed_ranges diff = Inr doc"
    then obtain stf where f: "scan init_state (splitlines diff) = Inr stf"
      and doc: "doc = changed_lines stf"
      unfolding changed_ranges_def by (cases "scan init_state (splitlines diff)") auto
    from hunk_recorded_doc [OF nl(1) pm xm mid nl(2) h r f [unfolded lines']]
    show "\<exists>rs. (x, rs) \<in> set doc \<and> r \<in> set rs" unfolding dm doc .
  qed
qed

lemma dec_ball_no_space: "\<forall>ch\<in>set (dec n). \<not> is_space ch"
  using dec_no_space by blast

lemma sign_no_space: "\<not> is_space CHR ''-''" "\<not> is_space CHR ''+''" "\<not> is_space CHR '',''"
  by (simp_all add: is_space_def)

lemma minus_span_plain:
  "''-'' @ dec a @ '','' @ dec b \<noteq> [] \<and> (\<forall>ch\<in>set (''-'' @ dec a @ '','' @ dec b). \<not> is_space ch)"
  by (simp add: dec_ball_no_space sign_no_space ball_Un)

lemma plus_span_plain:
  "''+'' @ dec c @ '','' @ dec d \<noteq> [] \<and> (\<forall>ch\<in>set (''+'' @ dec c @ '','' @ dec d). \<not> is_space ch)"
  by (simp add: dec_ball_no_space sign_no_space ball_Un)

lemma plus_start_plain:
  "''+'' @ dec c \<noteq> [] \<and> (\<forall>ch\<in>set (''+'' @ dec c). \<not> is_space ch)"
  by (simp add: dec_ball_no_space sign_no_space)

lemma dec_0: "dec 0 = ''0''"
  by (simp add: dec.simps digit_char_def)

lemma hunk_prefix: "prefix ''@@'' (''@@ '' @ s)"
  by simp

subsection \<open>Hunks under a recognised file\<close>

text \<open>
  C4.  In any diff, a hunk header \<open>@@ -a,b +c,d @@\<close> (whatever follows the closing \<open>@@\<close>) that
  comes after a marker \<open>+++ b/x\<close> with a recognised extension, with no \<open>+++ b/\<close> line in
  between, appends the range \<open>(c, c + d)\<close> to the ranges of \<open>x\<close>: the sign of \<open>+c\<close> is accepted
  by the integer conversion.  If the run ends without an exception, the output document
  has this range under \<open>x\<close>.
\<close>

theorem hunk_range_recorded:
  assumes "splitlines diff = pre @ [''+++ b/'' @ x] @ mid @
      [''@@ '' @ (''-'' @ dec a @ '','' @ dec b) @ '' '' @ (''+'' @ dec c @ '','' @ dec d) @ '' @@'' @ rest] @ post"
    and "source_ext x"
    and "\<forall>l\<in>set mid. \<not> prefix ''+++ b/'' l"
  shows "(\<forall>st. scan init_state (pre @ [''+++ b/'' @ x] @ mid) = Inr st \<longrightarrow>
            scan init_state (pre @ [''+++ b/'' @ x] @ mid @
                [''@@ '' @ (''-'' @ dec a @ '','' @ dec b) @ '' '' @ (''+'' @ dec c @ '','' @ dec d) @ '' @@'' @ rest])
              = Inr \<lparr>cur_file = x,
                     changed_lines = multimap_set (changed_lines st) x (int c, int c + int d)\<rparr>)
       \<and> (\<forall>doc. changed_ranges diff = Inr doc \<longrightarrow>
             (\<exists>rs. (x, rs) \<in> set doc \<and> (int c, int c + int d) \<in> set rs))"
proof -
  define old where "old = ''-'' @ dec a @ '','' @ dec b"
  define new where "new = ''+'' @ dec c @ '','' @ dec d"
  define h where "h = ''@@ '' @ old @ '' '' @ new @ '' @@'' @ rest"
  have o: "old \<noteq> []" "\<forall>ch\<in>set old. \<not> is_space ch"
    unfolding old_def using minus_span_plain [of a b] by blast+
  have n: "new \<noteq> []" "\<forall>ch\<in>set new. \<not> is_space ch"
    unfolding new_def using plus_span_plain [of c d] by blast+
  have "hunk_line_range (split_ws h) = hunk_range (hunk_span new)"
    unfolding h_def using o n by (rule hunk_fields)
  then have r: "hunk_line_range (split_ws h) = Inr (int c, int c + int d)"
    unfolding new_def by (simp only: hunk_range_start_count)
  have p: "prefix ''@@'' h" unfolding h_def by (rule hunk_prefix)
  have l: "splitlines diff = pre @ [''+++ b/'' @ x] @ mid @ [h] @ post"
    using assms(1) unfolding h_def old_def new_def .
  from hunk_recorded [OF l assms(2,3) p r]
  show ?thesis unfolding h_def old_def new_def by blast
qed

theorem hunk_range_recorded_witness:
  "splitlines ''+++ b/x.cpp\<newline>index 1..2\<newline>@@ -10,0 +12,3 @@ int f()\<newline>+++ b/y.h''
     = [] @ [''+++ b/'' @ ''x.cpp''] @ [''index 1..2''] @
       [''@@ '' @ (''-'' @ dec 10 @ '','' @ dec 0) @ '' '' @ (''+'' @ dec 12 @ '','' @ dec 3) @ '' @@'' @ '' int f()'']
       @ [''+++ b/y.h'']
   \<and> source_ext ''x.cpp''
   \<and> changed_ranges ''+++ b/x.cpp\<newline>index 1..2\<newline>@@ -10,0 +12,3 @@ int f()\<newline>+++ b/y.h''
       = Inr [(''x.cpp'', [(12, 15)])]"
  using hunk_range_recorded [of
      "''+++ b/x.cpp\<newline>index 1..2\<newline>@@ -10,0 +12,3 @@ int f()\<newline>+++ b/y.h''"
      "[]" "''x.cpp''" "[''index 1..2'']" 10 0 12 3 "'' int f()''" "[''+++ b/y.h'']"]
  by (simp add: diff_eval dec.simps digit_char_def source_ext_def suffix_to_prefix)

text \<open>
  C5.  A hunk header whose new-side span is \<open>+c\<close>, without a count, gets the count \<open>0\<close>
  appended to its span and records the range \<open>(c, c)\<close>; so does a header with the explicit
  count \<open>+c,0\<close>.  The degenerate range is kept in the output document.
\<close>

theorem hunk_without_count:
  assumes "splitlines diff = pre @ [''+++ b/'' @ x] @ mid @
      [''@@ '' @ old @ '' '' @ new @ '' @@'' @ rest] @ post"
    and "source_ext x"
    and "\<forall>l\<in>set mid. \<not> prefix ''+++ b/'' l"
    and "old \<noteq> []" and "\<forall>ch\<in>set old. \<not> is_space ch"
    and "new = ''+'' @ dec c \<or> new = ''+'' @ dec c @ '',0''"
  shows "(new = ''+'' @ dec c \<longrightarrow> hunk_span new = [PStr new, PInt 0])
       \<and> (\<forall>st. scan init_state (pre @ [''+++ b/'' @ x] @ mid) = Inr st \<longrightarrow>
            scan init_state (pre @ [''+++ b/'' @ x] @ mid @ [''@@ '' @ old @ '' '' @ new @ '' @@'' @ rest])
              = Inr \<lparr>cur_file = x, changed_lines = multimap_set (changed_lines st) x (int c, int c)\<rparr>)
       \<and> (\<forall>doc. changed_ranges diff = Inr doc \<longrightarrow>
             (\<exists>rs. (x, rs) \<in> set doc \<and> (int c, int c) \<in> set rs))"
proof -
  define h where "h = ''@@ '' @ old @ '' '' @ new @ '' @@'' @ rest"
  have n: "new \<noteq> [] \<and> (\<forall>ch\<in>set new. \<not> is_space ch)"
    using assms(6) plus_start_plain [of c] plus_span_plain [of c 0] unfolding dec_0 by auto
  have hr: "hunk_range (hunk_span new) = Inr (int c, int c)"
    using assms(6) hunk_range_start_only [of c] hunk_range_start_count [of c 0]
    unfolding dec_0 by auto
  have "hunk_line_range (split_ws h) = hunk_range (hunk_span new)"
    unfolding h_def using assms(4,5) n by (intro hunk_fields) blast+
  with hr have r: "hunk_line_range (split_ws h) = Inr (int c, int c)" by simp
  have p: "prefix ''@@'' h" unfolding h_def by (rule hunk_prefix)
  have l: "splitlines diff = pre @ [''+++ b/'' @ x] @ mid @ [h] @ post"
    using assms(1) unfolding h_def .
  have sp: "hunk_span (''+'' @ dec c) = [PStr (''+'' @ dec c), PInt 0]"
  proof -
    have "CHR '','' \<notin> set (CHR ''+'' # dec c)" using dec_no_comma [of c] by simp
    then have "split_on (CHR '','') (CHR ''+'' # dec c) = [CHR ''+'' # dec c]"
      by (rule split_on_plain)
    then show ?thesis by (simp add: hunk_span_def)
  qed
  from hunk_recorded [OF l assms(2,3) p r] sp
  show ?thesis unfolding h_def by blast
qed

theorem hunk_without_count_witness:
  "splitlines ''+++ b/foo.h\<newline>@@ -5 +7 @@\<newline>@@ -9,2 +10,0 @@''
     = [] @ [''+++ b/'' @ ''foo.h''] @ [] @ [''@@ '' @ ''-5'' @ '' '' @ (''+'' @ dec 7) @ '' @@'' @ []]
       @ [''@@ -9,2 +10,0 @@'']
   \<and> splitlines ''+++ b/foo.h\<newline>@@ -5 +7 @@\<newline>@@ -9,2 +10,0 @@''
     = [] @ [''+++ b/'' @ ''foo.h''] @ [''@@ -5 +7 @@''] @
       [''@@ '' @ ''-9,2'' @ '' '' @ (''+'' @ dec 10 @ '',0'') @ '' @@'' @ []] @ []
   \<and> source_ext ''foo.h''
   \<and> hunk_span (''+'' @ dec 7) = [PStr ''+7'', PInt 0]
   \<and> changed_ranges ''+++ b/foo.h\<newline>@@ -5 +7 @@\<newline>@@ -9,2 +10,0 @@''
       = Inr [(''foo.h'', [(7, 7), (10, 10)])]"
  using hunk_without_count [of "''+++ b/foo.h\<newline>@@ -5 +7 @@\<newline>@@ -9,2 +10,0 @@''"
      "[]" "''foo.h''" "[]" "''-5''" "''+'' @ dec 7" "[]" "[''@@ -9,2 +10,0 @@'']" 7]
    hunk_without_count [of "''+++ b/foo.h\<newline>@@ -5 +7 @@\<newline>@@ -9,2 +10,0 @@''"
      "[]" "''foo.h''" "[''@@ -5 +7 @@'']" "''-9,2''" "''+'' @ dec 10 @ '',0''" "[]" "[]" 10]
  by (simp add: diff_eval dec.simps digit_char_def source_ext_def suffix_to_prefix)

subsection \<open>Malformed hunk headers\<close>

lemma int_of_str_error: "isl (int_of_str s) \<Longrightarrow> int_of_str s = Inl ValueError"
  by (auto simp: int_of_str_def Let_def split: option.splits)

lemma hunk_span_items:
  "item (hunk_span field) 0 = Inr (PStr (split_on (CHR '','') field ! 0))"
  "1 < length (split_on (CHR '','') field) \<Longrightarrow>
     item (hunk_span field) 1 = Inr (PStr (split_on (CHR '','') field ! 1))"
  "\<not> 1 < length (split_on (CHR '','') field) \<Longrightarrow> item (hunk_span field) 1 = Inr (PInt 0)"
proof -
  have ne: "split_on (CHR '','') field \<noteq> []" by (rule split_on_nonempty)
  then have len: "0 < length (split_on (CHR '','') field)" by simp
  show "item (hunk_span field) 0 = Inr (PStr (split_on (CHR '','') field ! 0))"
    using len by (simp add: hunk_span_def item_def Let_def nth_append)
  show "item (hunk_span field) 1 = Inr (PStr (split_on (CHR '','') field ! 1))"
    if "1 < length (split_on (CHR '','') field)"
    using that by (simp add: hunk_span_def item_def Let_def)
  show "item (hunk_span field) 1 = Inr (PInt 0)"
    if "\<not> 1 < length (split_on (CHR '','') field)"
  proof -
    from that len have "length (split_on (CHR '','') field) = 1" by linarith
    then show ?thesis by (simp add: hunk_span_def item_def Let_def nth_append)
  qed
qed

lemma hunk_range_bad:
  assumes "isl (int_of_str (split_on (CHR '','') field ! 0)) \<or>
     (1 < length (split_on (CHR '','') field) \<and> isl (int_of_str (split_on (CHR '','') field ! 1)))"
  shows "hunk_range (hunk_span field) = Inl ValueError"
proof (cases "isl (int_of_str (split_on (CHR '','') field ! 0))")
  case True
  then show ?thesis
    by (simp add: hunk_range_def hunk_span_items(1) int_of_str_error)
next
  case False
  with assms have 1: "1 < length (split_on (CHR '','') field)"
    and 2: "isl (int_of_str (split_on (CHR '','') field ! 1))" by auto
  from False obtain n where n: "int_of_str (split_on (CHR '','') field ! 0) = Inr n"
    by (cases "int_of_str (split_on (CHR '','') field ! 0)") auto
  have e: "int_of_str (split_on (CHR '','') field ! 1) = Inl ValueError"
    using 2 by (rule int_of_str_error)
  then have e': "int_of_str (split_on (CHR '','') field ! Suc 0) = Inl ValueError" by simp
  show ?thesis
    unfolding hunk_range_def hunk_span_items(1) hunk_span_items(2) [OF 1]
    by (simp add: n e')
qed

text \<open>
  C8.  If the run reaches, with a non-empty \<open>file\<close>, a hunk header whose third field has a
  start or a count that \<open>int()\<close> rejects, the whole extraction ends with \<open>ValueError\<close>: there
  is no output.  A line that does not start with \<open>@@\<close> never raises and never changes the
  recorded ranges, and a line that is neither a hunk header nor a \<open>+++ b/\<close> marker leaves
  the state as it is.
\<close>

theorem malformed_hunk_fails:
  "(splitlines diff = pre @ [h] @ post \<and> scan init_state pre = Inr st \<and> cur_file st \<noteq> [] \<and>
     prefix ''@@'' h \<and> item (split_ws h) 2 = Inr field \<and>
     (isl (int_of_str (split_on (CHR '','') field ! 0)) \<or>
      (1 < length (split_on (CHR '','') field) \<and> isl (int_of_str (split_on (CHR '','') field ! 1))))
    \<longrightarrow> changed_ranges diff = Inl ValueError \<and> git_changed_lines diff = Inl ValueError)
   \<and> (\<not> prefix ''@@'' l \<longrightarrow> (\<exists>s'. loop_body s l = Inr s' \<and> changed_lines s' = changed_lines s))
   \<and> (\<not> prefix ''@@'' l \<and> \<not> prefix ''+++ b/'' l \<longrightarrow> loop_body s l = Inr s)"
proof (intro conjI impI)
  assume a: "splitlines diff = pre @ [h] @ post \<and> scan init_state pre = Inr st \<and> cur_file st \<noteq> [] \<and>
     prefix ''@@'' h \<and> item (split_ws h) 2 = Inr field \<and>
     (isl (int_of_str (split_on (CHR '','') field ! 0)) \<or>
      (1 < length (split_on (CHR '','') field) \<and> isl (int_of_str (split_on (CHR '','') field ! 1))))"
  then have "h \<in> set (splitlines diff)" by simp
  then have "NL \<notin> set h" by (rule splitlines_no_NL)
  with a have "loop_body st h =
     (case hunk_line_range (split_ws h) of
        Inl e \<Rightarrow> Inl e
      | Inr r \<Rightarrow> Inr \<lparr>cur_file = cur_file st,
                     changed_lines = multimap_set (changed_lines st) (cur_file st) r\<rparr>)"
    by (intro loop_body_hunk) blast+
  moreover have "hunk_line_range (split_ws h) = Inl ValueError"
    using a hunk_range_bad [of field] by (simp add: hunk_line_range_def)
  ultimately have "loop_body st h = Inl ValueError" by simp
  then have "scan st ([h] @ post) = Inl ValueError" by simp
  with a have "scan init_state (splitlines diff) = Inl ValueError"
    by (simp add: scan_append)
  then show 1: "changed_ranges diff = Inl ValueError" by (simp add: changed_ranges_def)
  then show "git_changed_lines diff = Inl ValueError" by (simp add: git_changed_lines_def)
next
  assume "\<not> prefix ''@@'' l"
  then show "\<exists>s'. loop_body s l = Inr s' \<and> changed_lines s' = changed_lines s"
    by (simp add: loop_body_no_hunk)
next
  assume "\<not> prefix ''@@'' l \<and> \<not> prefix ''+++ b/'' l"
  then show "loop_body s l = Inr s" by (simp add: loop_body_other)
qed

theorem malformed_hunk_fails_witness:
  "splitlines ''+++ b/a.cpp\<newline>@@ -1 +2,3 @@\<newline>@@ -4 +5,x @@\<newline>@@ -7 +8 @@''
      = [''+++ b/a.cpp'', ''@@ -1 +2,3 @@''] @ [''@@ -4 +5,x @@''] @ [''@@ -7 +8 @@'']
   \<and> scan init_state [''+++ b/a.cpp'', ''@@ -1 +2,3 @@'']
      = Inr \<lparr>cur_file = ''a.cpp'', changed_lines = [(''a.cpp'', [(2, 5)])]\<rparr>
   \<and> item (split_ws ''@@ -4 +5,x @@'') 2 = Inr ''+5,x''
   \<and> isl (int_of_str (split_on (CHR '','') ''+5,x'' ! 1))
   \<and> git_changed_lines ''+++ b/a.cpp\<newline>@@ -1 +2,3 @@\<newline>@@ -4 +5,x @@\<newline>@@ -7 +8 @@'' = Inl ValueError
   \<and> loop_body \<lparr>cur_file = ''a.cpp'', changed_lines = [(''a.cpp'', [(2, 5)])]\<rparr> ''index 1..2 @@''
      = Inr \<lparr>cur_file = ''a.cpp'', changed_lines = [(''a.cpp'', [(2, 5)])]\<rparr>"
  using malformed_hunk_fails [of
      "''+++ b/a.cpp\<newline>@@ -1 +2,3 @@\<newline>@@ -4 +5,x @@\<newline>@@ -7 +8 @@''"
      "[''+++ b/a.cpp'', ''@@ -1 +2,3 @@'']" "''@@ -4 +5,x @@''" "[''@@ -7 +8 @@'']"
      "\<lparr>cur_file = ''a.cpp'', changed_lines = [(''a.cpp'', [(2, 5)])]\<rparr>" "''+5,x''"
      "''index 1..2 @@''" "\<lparr>cur_file = ''a.cpp'', changed_lines = [(''a.cpp'', [(2, 5)])]\<rparr>"]
  by (simp add: diff_eval)

subsection \<open>The multimap against the grouped document\<close>

lemma first_seen_set: "set (first_seen xs) = set xs"
  by (induction xs) auto

lemma first_seen_distinct: "distinct (first_seen xs)"
  by (induction xs) (auto simp: first_seen_set)

lemma first_seen_snoc:
  "first_seen (xs @ [x]) = (if x \<in> set xs then first_seen xs else first_seen xs @ [x])"
  by (induction xs) auto

lemma multimap_set_present:
  "distinct ks \<Longrightarrow> key \<in> set ks \<Longrightarrow>
     multimap_set (map (\<lambda>k. (k, g k)) ks) key v
       = map (\<lambda>k. (k, if k = key then g k @ [v] else g k)) ks"
  by (induction ks) auto

lemma multimap_set_absent:
  "key \<notin> set ks \<Longrightarrow>
     multimap_set (map (\<lambda>k. (k, g k)) ks) key v = map (\<lambda>k. (k, g k)) ks @ [(key, [v])]"
  by (induction ks) auto

lemma grouped_snoc: "grouped (evs @ [(k, v)]) = multimap_set (grouped evs) k v"
proof (cases "k \<in> set (map fst evs)")
  case True
  have "grouped (evs @ [(k, v)])
      = map (\<lambda>k'. (k', if k' = k then map snd (filter (\<lambda>e. fst e = k') evs) @ [v]
                         else map snd (filter (\<lambda>e. fst e = k') evs))) (first_seen (map fst evs))"
    using True by (auto simp: grouped_def first_seen_snoc)
  also have "\<dots> = multimap_set (grouped evs) k v"
    unfolding grouped_def using True
    by (subst multimap_set_present) (simp_all add: first_seen_distinct first_seen_set)
  finally show ?thesis .
next
  case False
  then have "filter (\<lambda>e. fst e = k) evs = []" by (auto simp: filter_empty_conv)
  with False have "grouped (evs @ [(k, v)])
      = map (\<lambda>k'. (k', map snd (filter (\<lambda>e. fst e = k') evs))) (first_seen (map fst evs)) @ [(k, [v])]"
    by (auto simp: grouped_def first_seen_snoc first_seen_set)
  also have "\<dots> = multimap_set (grouped evs) k v"
    unfolding grouped_def using False
    by (subst multimap_set_absent) (simp_all add: first_seen_set)
  finally show ?thesis .
qed

lemma foldl_grouped:
  "foldl (\<lambda>m e. multimap_set m (fst e) (snd e)) [] evs = grouped evs"
proof (induction evs rule: rev_induct)
  case Nil
  show ?case by (simp add: grouped_def)
next
  case (snoc e evs)
  then show ?case using grouped_snoc [of evs "fst e" "snd e"] by simp
qed

lemma multimap_set_map:
  "map (\<lambda>e. (fst e, map g (snd e))) (multimap_set m key v)
     = multimap_set (map (\<lambda>e. (fst e, map g (snd e))) m) key (g v)"
  by (induction m key v rule: multimap_set.induct) auto

lemma multimap_set_total:
  "sum_list (map (\<lambda>e. length (snd e)) (multimap_set m key v))
     = Suc (sum_list (map (\<lambda>e. length (snd e)) m))"
  by (induction m key v rule: multimap_set.induct) auto

lemma foldl_total:
  "sum_list (map (\<lambda>e. length (snd e)) (foldl (\<lambda>m e. multimap_set m (fst e) (snd e)) m evs))
     = sum_list (map (\<lambda>e. length (snd e)) m) + length evs"
  by (induction evs arbitrary: m) (auto simp: multimap_set_total)

lemma grouped_distinct: "distinct (map fst (grouped evs))"
  by (simp add: grouped_def comp_def first_seen_distinct)

subsection \<open>The loop against the hunks of the diff\<close>

lemma hunks_under_hunk:
  "hunk_header (rstrip_nl l) \<and> next_file f (rstrip_nl l) \<noteq> [] \<Longrightarrow>
     hunks_under f (l # ls)
       = (next_file f (rstrip_nl l), rstrip_nl l) # hunks_under (next_file f (rstrip_nl l)) ls"
  by (simp add: Let_def)

lemma hunks_under_other:
  "\<not> (hunk_header (rstrip_nl l) \<and> next_file f (rstrip_nl l) \<noteq> []) \<Longrightarrow>
     hunks_under f (l # ls) = hunks_under (next_file f (rstrip_nl l)) ls"
  by (simp add: Let_def)

lemma loop_body_hunk_step:
  assumes "loop_body st l = Inr st1"
    and "hunk_header (rstrip_nl l) \<and> next_file (cur_file st) (rstrip_nl l) \<noteq> []"
  shows "\<exists>r. hunk_line_range (split_ws (rstrip_nl l)) = Inr r \<and>
    changed_lines st1 = multimap_set (changed_lines st) (next_file (cur_file st) (rstrip_nl l)) r"
proof (cases "hunk_line_range (split_ws (rstrip_nl l))")
  case (Inl e)
  with assms show ?thesis by (simp add: loop_body_def Let_def)
next
  case (Inr r)
  with assms have "st1 = \<lparr>cur_file = next_file (cur_file st) (rstrip_nl l),
      changed_lines = multimap_set (changed_lines st) (next_file (cur_file st) (rstrip_nl l)) r\<rparr>"
    by (simp add: loop_body_def Let_def)
  then have "changed_lines st1 = multimap_set (changed_lines st) (next_file (cur_file st) (rstrip_nl l)) r"
    by simp
  with Inr show ?thesis by blast
qed

lemma loop_body_other_step:
  assumes "loop_body st l = Inr st1"
    and "\<not> (hunk_header (rstrip_nl l) \<and> next_file (cur_file st) (rstrip_nl l) \<noteq> [])"
  shows "changed_lines st1 = changed_lines st"
proof -
  from assms have "st1 = \<lparr>cur_file = next_file (cur_file st) (rstrip_nl l),
      changed_lines = changed_lines st\<rparr>"
    by (simp add: loop_body_def Let_def)
  then show ?thesis by simp
qed

lemma scan_hunks:
  "scan st ls = Inr st' \<Longrightarrow>
     map (\<lambda>e. (fst e, map Inr (snd e))) (changed_lines st')
       = foldl (\<lambda>m e. multimap_set m (fst e) (snd e))
           (map (\<lambda>e. (fst e, map Inr (snd e))) (changed_lines st))
           (map (\<lambda>e. (fst e, hunk_line_range (split_ws (snd e)))) (hunks_under (cur_file st) ls))"
proof (induction ls arbitrary: st)
  case Nil
  then show ?case by simp
next
  case (Cons l ls)
  let ?line = "rstrip_nl l"
  let ?f = "next_file (cur_file st) ?line"
  from Cons.prems obtain st1 where 1: "loop_body st l = Inr st1" and 2: "scan st1 ls = Inr st'"
    by (cases "loop_body st l") simp_all
  have f1: "cur_file st1 = ?f" using 1 by (rule loop_body_cur_file)
  note ih = Cons.IH [OF 2, unfolded f1]
  show ?case
  proof (cases "hunk_header ?line \<and> ?f \<noteq> []")
    case True
    from loop_body_hunk_step [OF 1 True] obtain r
      where r: "hunk_line_range (split_ws ?line) = Inr r"
      and st1: "changed_lines st1 = multimap_set (changed_lines st) ?f r"
      by blast
    have b: "map (\<lambda>e. (fst e, map Inr (snd e))) (changed_lines st1)
        = multimap_set (map (\<lambda>e. (fst e, map Inr (snd e))) (changed_lines st)) ?f (Inr r)"
      unfolding st1 by (rule multimap_set_map)
    show ?thesis
      unfolding hunks_under_hunk [OF True] ih b by (simp add: r)
  next
    case False
    have b: "changed_lines st1 = changed_lines st"
      using 1 False by (rule loop_body_other_step)
    show ?thesis
      unfolding hunks_under_other [OF False] ih b ..
  qed
qed

text \<open>
  C7.  When the run ends without an exception, the output document is the grouping of the
  diff's hunks: its files are the files of the hunks in first-seen order, each once, and
  the ranges of a file are the ranges of the hunks under that file, one per hunk, in the
  order met.  Nothing is merged or dropped: the document holds as many ranges as the diff
  has hunks under a file.
\<close>

theorem ranges_grouped_in_order:
  assumes "changed_ranges diff = Inr doc"
  shows "map (\<lambda>e. (fst e, map Inr (snd e))) doc
           = grouped (map (\<lambda>e. (fst e, hunk_line_range (split_ws (snd e))))
                        (hunks_under [] (splitlines diff)))
       \<and> distinct (map fst doc)
       \<and> sum_list (map (\<lambda>e. length (snd e)) doc) = length (hunks_under [] (splitlines diff))"
proof -
  let ?evs = "map (\<lambda>e. (fst e, hunk_line_range (split_ws (snd e)))) (hunks_under [] (splitlines diff))"
  from assms obtain st where st: "scan init_state (splitlines diff) = Inr st"
    and doc: "doc = changed_lines st"
    unfolding changed_ranges_def by (cases "scan init_state (splitlines diff)") auto
  from scan_hunks [OF st]
  have f: "map (\<lambda>e. (fst e, map Inr (snd e))) doc = foldl (\<lambda>m e. multimap_set m (fst e) (snd e)) [] ?evs"
    unfolding doc by (simp add: init_state_def)
  then have g: "map (\<lambda>e. (fst e, map Inr (snd e))) doc = grouped ?evs"
    by (simp only: foldl_grouped)
  from arg_cong [OF g, of "map fst"]
  have "map fst doc = map fst (grouped ?evs)" by (simp add: comp_def)
  then have d: "distinct (map fst doc)" using grouped_distinct [of ?evs] by simp
  from arg_cong [OF f, of "\<lambda>m. sum_list (map (\<lambda>e. length (snd e)) m)"]
  have "sum_list (map (\<lambda>e. length (snd e)) doc)
      = sum_list (map (\<lambda>e. length (snd e)) (foldl (\<lambda>m e. multimap_set m (fst e) (snd e)) [] ?evs))"
    by (simp add: comp_def)
  also have "\<dots> = length ?evs" unfolding foldl_total by simp
  also have "\<dots> = length (hunks_under [] (splitlines diff))" by simp
  finally have "sum_list (map (\<lambda>e. length (snd e)) doc) = length (hunks_under [] (splitlines diff))" .
  with g d show ?thesis by blast
qed

theorem ranges_grouped_in_order_witness:
  "changed_ranges ''+++ b/a.cpp\<newline>@@ -1 +2,3 @@\<newline>+++ b/b.h\<newline>@@ -1 +1 @@\<newline>+++ b/a.cpp\<newline>@@ -1 +2,3 @@\<newline>@@ -9 +4,2 @@''
     = Inr [(''a.cpp'', [(2, 5), (2, 5), (4, 6)]), (''b.h'', [(1, 1)])]
   \<and> hunks_under [] (splitlines ''+++ b/a.cpp\<newline>@@ -1 +2,3 @@\<newline>+++ b/b.h\<newline>@@ -1 +1 @@\<newline>+++ b/a.cpp\<newline>@@ -1 +2,3 @@\<newline>@@ -9 +4,2 @@'')
     = [(''a.cpp'', ''@@ -1 +2,3 @@''), (''b.h'', ''@@ -1 +1 @@''), (''a.cpp'', ''@@ -1 +2,3 @@''),
        (''a.cpp'', ''@@ -9 +4,2 @@'')]
   \<and> grouped [(''a.cpp'', Inr (2, 5)), (''b.h'', Inr (1, 1)), (''a.cpp'', Inr (2, 5)), (''a.cpp'', Inr (4, 6))]
     = [(''a.cpp'', [Inr (2, 5), Inr (2, 5), Inr (4, 6)]), (''b.h'', [Inr (1::int, 1::int) :: error + int \<times> int])]"
  using ranges_grouped_in_order [of
    "''+++ b/a.cpp\<newline>@@ -1 +2,3 @@\<newline>+++ b/b.h\<newline>@@ -1 +1 @@\<newline>+++ b/a.cpp\<newline>@@ -1 +2,3 @@\<newline>@@ -9 +4,2 @@''"
    "[(''a.cpp'', [(2, 5), (2, 5), (4, 6)]), (''b.h'', [(1, 1)])]"]
  by (simp add: diff_eval grouped_def)

subsection \<open>Runs as a relation\<close>

lemma run_loop_scan: "run_loop st ls (scan st ls)"
proof (induction ls arbitrary: st)
  case Nil
  show ?case by (simp add: loop_done)
next
  case (Cons l ls)
  show ?case
  proof (cases "loop_body st l")
    case (Inl e)
    then show ?thesis by (simp add: loop_raise)
  next
    case (Inr st')
    with Cons [of st'] show ?thesis by (simp add: loop_next)
  qed
qed

lemma run_loop_deterministic:
  "run_loop st ls r \<Longrightarrow> run_loop st ls r' \<Longrightarrow> r = r'"
proof (induction arbitrary: r' rule: run_loop.induct)
  case (loop_done st)
  then show ?case by (auto elim: run_loop.cases)
next
  case (loop_raise st l e ls)
  from loop_raise.prems loop_raise.hyps show ?case by (auto elim: run_loop.cases)
next
  case (loop_next st l st' ls r)
  from loop_next.prems loop_next.hyps have "run_loop st' ls r'"
    by (auto elim: run_loop.cases)
  then show ?case by (rule loop_next.IH)
qed

lemma extraction_total: "extraction diff (git_changed_lines diff)"
proof (cases "scan init_state (splitlines diff)")
  case (Inl e)
  with run_loop_scan [of init_state "splitlines diff"]
  have "run_loop init_state (splitlines diff) (Inl e)" by simp
  then have "extraction diff (Inl e)" by (rule extraction_raise)
  with Inl show ?thesis by (simp add: git_changed_lines_def changed_ranges_def)
next
  case (Inr st)
  with run_loop_scan [of init_state "splitlines diff"]
  have "run_loop init_state (splitlines diff) (Inr st)" by simp
  then have "extraction diff (Inr (json_dumps (changed_lines st)))" by (rule extraction_return)
  with Inr show ?thesis by (simp add: git_changed_lines_def changed_ranges_def)
qed

text \<open>
  C9.  The extraction depends on the diff text alone: two runs on the same text have the
  same outcome, the same serialised document or the same exception, and it is the one
  \<open>git_changed_lines\<close> computes.  Every run starts from the state of lines 34--35, so
  nothing of an earlier run is left to see.
\<close>

theorem extraction_deterministic:
  assumes "extraction diff r1" and "extraction diff r2"
  shows "r1 = r2 \<and> r1 = git_changed_lines diff"
proof -
  have u: "r = r'" if "extraction diff r" and "extraction diff r'" for r r'
    using that
  proof (induction rule: extraction.induct)
    case (extraction_raise diff e)
    from extraction_raise.prems extraction_raise.hyps show ?case
      by (auto elim!: extraction.cases dest: run_loop_deterministic)
  next
    case (extraction_return diff st)
    from extraction_return.prems extraction_return.hyps show ?case
      by (auto elim!: extraction.cases dest: run_loop_deterministic)
  qed
  from u [OF assms] u [OF assms(1) extraction_total] show ?thesis by simp
qed

lemmas json_eval = git_changed_lines_def json_dumps_def json_array_def json_entry_def
  json_range_def json_string_def json_char_def int_repr_def dec.simps digit_char_def hex2_def

lemma spec_example:
  \<open>git_changed_lines ''+++ b/foo.cpp\<newline>@@ -10,0 +12,3 @@\<newline>+++ b/bar.txt\<newline>@@ -1,0 +2,1 @@\<newline>+++ b/foo.h\<newline>@@ -5 +7 @@''
     = Inr ''[{"name": "foo.cpp", "lines": [[12, 15]]}, {"name": "foo.h", "lines": [[7, 7]]}]''\<close>
  by (simp add: diff_eval json_eval)

theorem extraction_deterministic_witness:
  \<open>extraction ''+++ b/foo.cpp\<newline>@@ -10,0 +12,3 @@\<newline>+++ b/bar.txt\<newline>@@ -1,0 +2,1 @@\<newline>+++ b/foo.h\<newline>@@ -5 +7 @@''
      (Inr ''[{"name": "foo.cpp", "lines": [[12, 15]]}, {"name": "foo.h", "lines": [[7, 7]]}]'')
   \<and> extraction ''+++ b/foo.cpp\<newline>@@ -10,0 +12,3 @@\<newline>+++ b/bar.txt\<newline>@@ -1,0 +2,1 @@\<newline>+++ b/foo.h\<newline>@@ -5 +7 @@''
      (git_changed_lines ''+++ b/foo.cpp\<newline>@@ -10,0 +12,3 @@\<newline>+++ b/bar.txt\<newline>@@ -1,0 +2,1 @@\<newline>+++ b/foo.h\<newline>@@ -5 +7 @@'')
   \<and> git_changed_lines ''+++ b/foo.cpp\<newline>@@ -10,0 +12,3 @@\<newline>+++ b/bar.txt\<newline>@@ -1,0 +2,1 @@\<newline>+++ b/foo.h\<newline>@@ -5 +7 @@''
     = Inr ''[{"name": "foo.cpp", "lines": [[12, 15]]}, {"name": "foo.h", "lines": [[7, 7]]}]''\<close>
proof -
  let ?d = "''+++ b/foo.cpp\<newline>@@ -10,0 +12,3 @@\<newline>+++ b/bar.txt\<newline>@@ -1,0 +2,1 @@\<newline>+++ b/foo.h\<newline>@@ -5 +7 @@''"
  have a: "extraction ?d (git_changed_lines ?d)" by (rule extraction_total)
  then have b: \<open>extraction ?d (Inr ''[{"name": "foo.cpp", "lines": [[12, 15]]}, {"name": "foo.h", "lines": [[7, 7]]}]'')\<close>
    by (simp add: spec_example)
  from extraction_deterministic [OF b a] a b show ?thesis by simp
qed

subsection \<open>The diagnostic pattern\<close>

lemma clang_tidy_matches_sound:
  assumes "(path, line, col, sev, msg, rule) \<in> set (clang_tidy_matches s)"
  shows "\<exists>w1 w2 w3 e.
        s = path @ '':'' @ line @ '':'' @ col @ '':'' @ w1 @ sev @ '':'' @ w2 @ msg
              @ '' ['' @ rule @ '']'' @ w3 @ e
        \<and> (\<forall>c\<in>set path. dot c)
        \<and> line \<noteq> [] \<and> (\<forall>c\<in>set line. is_digit c)
        \<and> col \<noteq> [] \<and> (\<forall>c\<in>set col. is_digit c)
        \<and> w1 \<noteq> [] \<and> (\<forall>c\<in>set w1. is_space c)
        \<and> sev \<in> set [''error'', ''warning'']
        \<and> w2 \<noteq> [] \<and> (\<forall>c\<in>set w2. is_space c)
        \<and> (\<forall>c\<in>set msg. dot c)
        \<and> rule \<noteq> [] \<and> (\<forall>c\<in>set rule. rule_char c)
        \<and> (\<forall>c\<in>set w3. is_space c)
        \<and> at_end e"
proof -
  from assms obtain r1 r2 r3 r4 r5 r6 w1 r7 r8 r9 w2 r10 r11 r12 r13 r14 w3 r15 where
    "(path, r1) \<in> set (star dot s)" "r2 \<in> set (lit '':'' r1)"
    "(line, r3) \<in> set (plus is_digit r2)" "r4 \<in> set (lit '':'' r3)"
    "(col, r5) \<in> set (plus is_digit r4)" "r6 \<in> set (lit '':'' r5)"
    "(w1, r7) \<in> set (plus is_space r6)"
    "(sev, r8) \<in> set (alt [''error'', ''warning''] r7)" "r9 \<in> set (lit '':'' r8)"
    "(w2, r10) \<in> set (plus is_space r9)"
    "(msg, r11) \<in> set (star dot r10)" "r12 \<in> set (lit '' ['' r11)"
    "(rule, r13) \<in> set (plus rule_char r12)" "r14 \<in> set (lit '']'' r13)"
    "(w3, r15) \<in> set (star is_space r14)" "at_end r15"
    unfolding clang_tidy_matches_def by auto
  then show ?thesis
    unfolding lit_iff star_iff plus_iff alt_iff by (intro exI [of _ w1] exI [of _ w2] exI [of _ w3] exI [of _ r15]) simp
qed

lemma clang_tidy_matches_complete:
  assumes s: "s = path @ '':'' @ line @ '':'' @ col @ '':'' @ w1 @ sev @ '':'' @ w2 @ msg
              @ '' ['' @ rule @ '']'' @ w3 @ e"
    and path: "\<forall>c\<in>set path. dot c"
    and line: "line \<noteq> []" "\<forall>c\<in>set line. is_digit c"
    and col: "col \<noteq> []" "\<forall>c\<in>set col. is_digit c"
    and w1: "w1 \<noteq> []" "\<forall>c\<in>set w1. is_space c"
    and sev: "sev \<in> set [''error'', ''warning'']"
    and w2: "w2 \<noteq> []" "\<forall>c\<in>set w2. is_space c"
    and msg: "\<forall>c\<in>set msg. dot c"
    and rule: "rule \<noteq> []" "\<forall>c\<in>set rule. rule_char c"
    and w3: "\<forall>c\<in>set w3. is_space c"
    and e: "at_end e"
  shows "(path, line, col, sev, msg, rule) \<in> set (clang_tidy_matches s)"
proof -
  define r14 where "r14 = w3 @ e"
  define r13 where "r13 = '']'' @ r14"
  define r12 where "r12 = rule @ r13"
  define r11 where "r11 = '' ['' @ r12"
  define r10 where "r10 = msg @ r11"
  define r9 where "r9 = w2 @ r10"
  define r8 where "r8 = '':'' @ r9"
  define r7 where "r7 = sev @ r8"
  define r6 where "r6 = w1 @ r7"
  define r5 where "r5 = '':'' @ r6"
  define r4 where "r4 = col @ r5"
  define r3 where "r3 = '':'' @ r4"
  define r2 where "r2 = line @ r3"
  define r1 where "r1 = '':'' @ r2"
  have s': "s = path @ r1"
    unfolding s r1_def r2_def r3_def r4_def r5_def r6_def r7_def r8_def r9_def r10_def r11_def
      r12_def r13_def r14_def by simp
  have f1: "(path, r1) \<in> set (star dot s)" unfolding star_iff using s' path by blast
  have f2: "r2 \<in> set (lit '':'' r1)" unfolding lit_iff by (rule r1_def)
  have f3: "(line, r3) \<in> set (plus is_digit r2)" unfolding plus_iff using r2_def line by blast
  have f4: "r4 \<in> set (lit '':'' r3)" unfolding lit_iff by (rule r3_def)
  have f5: "(col, r5) \<in> set (plus is_digit r4)" unfolding plus_iff using r4_def col by blast
  have f6: "r6 \<in> set (lit '':'' r5)" unfolding lit_iff by (rule r5_def)
  have f7: "(w1, r7) \<in> set (plus is_space r6)" unfolding plus_iff using r6_def w1 by blast
  have f8: "(sev, r8) \<in> set (alt [''error'', ''warning''] r7)"
    unfolding alt_iff using r7_def sev by blast
  have f9: "r9 \<in> set (lit '':'' r8)" unfolding lit_iff by (rule r8_def)
  have f10: "(w2, r10) \<in> set (plus is_space r9)" unfolding plus_iff using r9_def w2 by blast
  have f11: "(msg, r11) \<in> set (star dot r10)" unfolding star_iff using r10_def msg by blast
  have f12: "r12 \<in> set (lit '' ['' r11)" unfolding lit_iff by (rule r11_def)
  have f13: "(rule, r13) \<in> set (plus rule_char r12)" unfolding plus_iff using r12_def rule by blast
  have f14: "r14 \<in> set (lit '']'' r13)" unfolding lit_iff by (rule r13_def)
  have f15: "(w3, e) \<in> set (star is_space r14)" unfolding star_iff using r14_def w3 by blast
  show ?thesis
    unfolding clang_tidy_matches_def
    apply (simp add: Bex_def)
    apply (rule exI conjI refl f1 f2 f3 f4 f5 f6 f7 f8 f9 f10 f11 f12 f13 f14 f15 e)+
    done
qed

subsection \<open>Annotations\<close>

lemma space_NL: "is_space NL"
  by (simp add: is_space_def NL_def)

lemma annotation_sound:
  assumes "annotation s = Some out"
  shows "\<exists>d. s = diagnostic_text d \<and> diagnostic_parts d \<and>
    out = diagnostic_annotation d"
proof -
  from assms obtain g gs where m: "clang_tidy_matches s = g # gs" and out: "out = annotation_text g"
    by (auto simp: annotation_def split: list.splits)
  obtain path line col sev msg rule where g: "g = (path, line, col, sev, msg, rule)"
    by (cases g) auto
  from m g have "(path, line, col, sev, msg, rule) \<in> set (clang_tidy_matches s)" by simp
  from clang_tidy_matches_sound [OF this] obtain w1 w2 w3 e where
    s: "s = path @ '':'' @ line @ '':'' @ col @ '':'' @ w1 @ sev @ '':'' @ w2 @ msg
              @ '' ['' @ rule @ '']'' @ w3 @ e"
    and parts: "\<forall>c\<in>set path. dot c" "line \<noteq> []" "\<forall>c\<in>set line. is_digit c"
      "col \<noteq> []" "\<forall>c\<in>set col. is_digit c" "w1 \<noteq> []" "\<forall>c\<in>set w1. is_space c"
      "sev \<in> set [''error'', ''warning'']" "w2 \<noteq> []" "\<forall>c\<in>set w2. is_space c"
      "\<forall>c\<in>set msg. dot c" "rule \<noteq> []" "\<forall>c\<in>set rule. rule_char c"
      "\<forall>c\<in>set w3. is_space c" "at_end e"
    by blast
  from parts(14,15) have w3: "\<forall>c\<in>set (w3 @ e). is_space c"
    using space_NL by (auto simp: at_end_def)
  define d where "d = \<lparr>d_path = path, d_line = line, d_col = col, d_w1 = w1, d_severity = sev,
    d_w2 = w2, d_message = msg, d_rule = rule, d_w3 = w3 @ e\<rparr>"
  have "s = diagnostic_text d"
    unfolding s diagnostic_text_def d_def by simp
  moreover have "diagnostic_parts d"
    unfolding diagnostic_parts_def list_all_iff d_def using parts(1-13) w3 by simp
  moreover have "out = diagnostic_annotation d"
    unfolding out g annotation_text_def diagnostic_annotation_def d_def by simp
  ultimately show ?thesis by blast
qed

lemma annotation_complete:
  assumes "diagnostic_parts d"
  shows "\<exists>out. annotation (diagnostic_text d) = Some out"
proof -
  from assms have parts: "\<forall>c\<in>set (d_path d). dot c"
      "d_line d \<noteq> []" "\<forall>c\<in>set (d_line d). is_digit c"
      "d_col d \<noteq> []" "\<forall>c\<in>set (d_col d). is_digit c"
      "d_w1 d \<noteq> []" "\<forall>c\<in>set (d_w1 d). is_space c"
      "d_severity d \<in> set [''error'', ''warning'']"
      "d_w2 d \<noteq> []" "\<forall>c\<in>set (d_w2 d). is_space c"
      "\<forall>c\<in>set (d_message d). dot c"
      "d_rule d \<noteq> []" "\<forall>c\<in>set (d_rule d). rule_char c"
      "\<forall>c\<in>set (d_w3 d). is_space c"
    unfolding diagnostic_parts_def list_all_iff by auto
  have t: "diagnostic_text d = d_path d @ '':'' @ d_line d @ '':'' @ d_col d @ '':'' @ d_w1 d
      @ d_severity d @ '':'' @ d_w2 d @ d_message d @ '' ['' @ d_rule d @ '']'' @ d_w3 d @ []"
    unfolding diagnostic_text_def by simp
  have ae: "at_end []" by (simp add: at_end_def)
  have "(d_path d, d_line d, d_col d, d_severity d, d_message d, d_rule d)
      \<in> set (clang_tidy_matches (diagnostic_text d))"
    by (rule clang_tidy_matches_complete [OF t parts ae])
  then obtain g gs where "clang_tidy_matches (diagnostic_text d) = g # gs"
    by (cases "clang_tidy_matches (diagnostic_text d)") auto
  then show ?thesis by (simp add: annotation_def)
qed

lemma tidy_printed:
  assumes "tidy env args = Inr res"
  shows "\<exists>lines. line_filter env (arg_commit args) = Inr lines \<and>
    printed res = lines # annotations (in_gha env)
      (fst (snd (run env (cmdline res) (filter source_file (input_files env (arg_files args))))))"
  using assms by (auto simp: tidy_def Let_def split: sum.splits)

lemma annotation_stripped_example:
  "annotation ''/__w/velox/velox/b.cpp:10:3: warning: unused variable [rule-x]''
       = Some ''::warning file=b.cpp,line=10,col=3,title=rule-x::unused variable''"
  by code_simp

text \<open>
  C3 (as the code has it).  When \<open>GITHUB_ACTIONS\<close> is set, \<open>tidy\<close> prints, after the line
  filter, one annotation for each line of the tool's output that the pattern matches, in
  the order of the output, and nothing for the other lines; outside GitHub Actions it
  prints no annotation.  A line is matched exactly when it has the form
  \<open><path>:<line>:<col>: <severity>: <message> [<rule>]\<close>, and its annotation is
  \<open>::<severity> file=<path>,line=<line>,col=<col>,title=<rule>::<message>\<close> with the text
  \<open>/__w/velox/velox/\<close> removed from the front of the path when the path starts with it.
  That prefix is the constant of line 96, so the line
  \<open>/__w/velox/velox/b.cpp:10:3: warning: unused variable [rule-x]\<close> gives
  \<open>::warning file=b.cpp,line=10,col=3,title=rule-x::unused variable\<close>.
\<close>

theorem ci_annotation_format:
  "(annotation s = Some out \<longrightarrow>
      (\<exists>d. s = diagnostic_text d \<and> diagnostic_parts d \<and>
           out = ''::'' @ d_severity d @ '' file='' @ removeprefix ''/__w/velox/velox/'' (d_path d) @
                 '',line='' @ d_line d @ '',col='' @ d_col d @ '',title='' @ d_rule d @
                 ''::'' @ d_message d))
   \<and> (diagnostic_parts d' \<longrightarrow> (\<exists>out. annotation (diagnostic_text d') = Some out))
   \<and> (tidy env args = Inr res \<longrightarrow>
        tl (printed res) =
          (if in_gha env
           then List.map_filter annotation
                  (split_on NL (fst (snd (run env (cmdline res)
                     (filter source_file (input_files env (arg_files args)))))))
           else []))
   \<and> annotation ''/__w/velox/velox/b.cpp:10:3: warning: unused variable [rule-x]''
       = Some ''::warning file=b.cpp,line=10,col=3,title=rule-x::unused variable''"
proof (intro conjI impI)
  assume "annotation s = Some out"
  from annotation_sound [OF this]
  show "\<exists>d. s = diagnostic_text d \<and> diagnostic_parts d \<and>
           out = ''::'' @ d_severity d @ '' file='' @ removeprefix ''/__w/velox/velox/'' (d_path d) @
                 '',line='' @ d_line d @ '',col='' @ d_col d @ '',title='' @ d_rule d @
                 ''::'' @ d_message d"
    unfolding diagnostic_annotation_def workspace_prefix_def .
next
  assume "diagnostic_parts d'"
  then show "\<exists>out. annotation (diagnostic_text d') = Some out"
    by (rule annotation_complete)
next
  assume "tidy env args = Inr res"
  from tidy_printed [OF this]
  show "tl (printed res) =
          (if in_gha env
           then List.map_filter annotation
                  (split_on NL (fst (snd (run env (cmdline res)
                     (filter source_file (input_files env (arg_files args)))))))
           else [])"
    by (auto simp: annotations_def)
next
  show "annotation ''/__w/velox/velox/b.cpp:10:3: warning: unused variable [rule-x]''
       = Some ''::warning file=b.cpp,line=10,col=3,title=rule-x::unused variable''"
    by (rule annotation_stripped_example)
qed

lemma gha_run_example:
  "tidy \<lparr>in_gha = True, input_files = (\<lambda>fs. fs),
         run = (\<lambda>c i. (0, ''ok\<newline>/__w/velox/velox/b.h:1:2: error: no [x]\<newline>'', []))\<rparr>
        \<lparr>arg_commit = None, arg_fix = None, arg_files = [''b.h'']\<rparr>
     = Inr \<lparr>cmdline = tidy_command [] [],
            printed = [[], ''::error file=b.h,line=1,col=2,title=x::no''],
            status = 1\<rparr>"
  by code_simp

theorem ci_annotation_format_witness:
  "annotation ''/__w/velox/velox/b.h:1:2: error: no [x]''
     = Some ''::error file=b.h,line=1,col=2,title=x::no''
   \<and> ''/__w/velox/velox/b.h:1:2: error: no [x]''
     = diagnostic_text \<lparr>d_path = ''/__w/velox/velox/b.h'', d_line = ''1'', d_col = ''2'', d_w1 = '' '',
         d_severity = ''error'', d_w2 = '' '', d_message = ''no'', d_rule = ''x'', d_w3 = []\<rparr>
   \<and> diagnostic_parts \<lparr>d_path = ''/__w/velox/velox/b.h'', d_line = ''1'', d_col = ''2'', d_w1 = '' '',
         d_severity = ''error'', d_w2 = '' '', d_message = ''no'', d_rule = ''x'', d_w3 = []\<rparr>
   \<and> tidy \<lparr>in_gha = True, input_files = (\<lambda>fs. fs),
         run = (\<lambda>c i. (0, ''ok\<newline>/__w/velox/velox/b.h:1:2: error: no [x]\<newline>'', []))\<rparr>
        \<lparr>arg_commit = None, arg_fix = None, arg_files = [''b.h'']\<rparr>
     = Inr \<lparr>cmdline = tidy_command [] [],
            printed = [[], ''::error file=b.h,line=1,col=2,title=x::no''],
            status = 1\<rparr>
   \<and> tl [[], ''::error file=b.h,line=1,col=2,title=x::no'']
     = List.map_filter annotation (split_on NL ''ok\<newline>/__w/velox/velox/b.h:1:2: error: no [x]\<newline>'')"
proof -
  let ?d = "\<lparr>d_path = ''/__w/velox/velox/b.h'', d_line = ''1'', d_col = ''2'', d_w1 = '' '',
         d_severity = ''error'', d_w2 = '' '', d_message = ''no'', d_rule = ''x'', d_w3 = []\<rparr>"
  let ?env = "\<lparr>in_gha = True, input_files = (\<lambda>fs. fs),
         run = (\<lambda>c i. (0, ''ok\<newline>/__w/velox/velox/b.h:1:2: error: no [x]\<newline>'', []))\<rparr>"
  let ?args = "\<lparr>arg_commit = None, arg_fix = None, arg_files = [''b.h'']\<rparr>"
  let ?res = "\<lparr>cmdline = tidy_command [] [],
            printed = [[], ''::error file=b.h,line=1,col=2,title=x::no''],
            status = 1\<rparr>"
  have t: "''/__w/velox/velox/b.h:1:2: error: no [x]'' = diagnostic_text ?d"
    by (simp add: diagnostic_text_def)
  have p: "diagnostic_parts ?d"
    by (simp add: diagnostic_parts_def dot_def NL_def is_digit_def is_space_def rule_char_def)
  have e: "annotation ''/__w/velox/velox/b.h:1:2: error: no [x]''
     = Some ''::error file=b.h,line=1,col=2,title=x::no''"
    by code_simp
  have r: "tidy ?env ?args = Inr ?res" by (rule gha_run_example)
  from ci_annotation_format [of "''/__w/velox/velox/b.h:1:2: error: no [x]''"
      "''::error file=b.h,line=1,col=2,title=x::no''" ?d ?env ?args ?res] e p r
  have "tl (printed ?res) = List.map_filter annotation
      (split_on NL ''ok\<newline>/__w/velox/velox/b.h:1:2: error: no [x]\<newline>'')"
    by simp
  then have "tl [[], ''::error file=b.h,line=1,col=2,title=x::no'']
     = List.map_filter annotation (split_on NL ''ok\<newline>/__w/velox/velox/b.h:1:2: error: no [x]\<newline>'')"
    by simp
  with t p e r show ?thesis by blast
qed

text \<open>
  C3 as stated fails on its example: the path \<open>/a/b.cpp\<close> does not start with the prefix of
  line 96, so the annotation keeps the whole path, and this is the line \<open>tidy\<close> prints.
\<close>

theorem ci_annotation_other_prefix_counterexample:
  "annotation ''/a/b.cpp:10:3: warning: unused variable [rule-x]''
     = Some ''::warning file=/a/b.cpp,line=10,col=3,title=rule-x::unused variable''
   \<and> annotation ''/a/b.cpp:10:3: warning: unused variable [rule-x]''
     \<noteq> Some ''::warning file=b.cpp,line=10,col=3,title=rule-x::unused variable''
   \<and> tidy \<lparr>in_gha = True, input_files = (\<lambda>fs. fs),
         run = (\<lambda>c i. (0, ''/a/b.cpp:10:3: warning: unused variable [rule-x]'', []))\<rparr>
        \<lparr>arg_commit = None, arg_fix = None, arg_files = [''/a/b.cpp'']\<rparr>
     = Inr \<lparr>cmdline = tidy_command [] [],
            printed = [[], ''::warning file=/a/b.cpp,line=10,col=3,title=rule-x::unused variable''],
            status = 0\<rparr>"
  by code_simp

end
